theory Spec2Isabelle
  imports Main "HOL-Library.Sublist" "HOL-Library.Code_Target_Nat"
begin

section \<open>Characters and strings\<close>

text \<open>
  A JavaScript string is a sequence of UTF-16 code units; a code unit is modelled by its
  number. \<open>js\<close> turns a string literal of the theory into such a sequence. The patterns of
  \<^verbatim>\<open>ocr.js\<close> are written with ASCII characters and \<^verbatim>\<open>\s\<close> only.
\<close>

type_synonym cu = nat

type_synonym jstring = "cu list"

definition js :: "string \<Rightarrow> jstring" where
  "js s = map of_char s"

definition in_range :: "char \<Rightarrow> char \<Rightarrow> cu \<Rightarrow> bool" where
  "in_range lo hi c = (of_char lo \<le> c \<and> c \<le> of_char hi)"

definition is_space :: "cu \<Rightarrow> bool" where
  \<comment> \<open>\<^verbatim>\<open>\s\<close>, and what \<^verbatim>\<open>trim()\<close> strips: the white space and line terminators of ECMAScript\<close>
  "is_space c = ((9 \<le> c \<and> c \<le> 13) \<or> c = 32 \<or> c = 160 \<or> c = 5760 \<or> (8192 \<le> c \<and> c \<le> 8202)
                 \<or> c = 8232 \<or> c = 8233 \<or> c = 8239 \<or> c = 8287 \<or> c = 12288 \<or> c = 65279)"

definition is_digit :: "cu \<Rightarrow> bool" where
  "is_digit c = in_range CHR ''0'' CHR ''9'' c"

definition is_upper :: "cu \<Rightarrow> bool" where
  "is_upper c = in_range CHR ''A'' CHR ''Z'' c"

definition is_lower :: "cu \<Rightarrow> bool" where
  "is_lower c = in_range CHR ''a'' CHR ''z'' c"

definition is_word :: "cu \<Rightarrow> bool" where
  \<comment> \<open>the word characters of \<^verbatim>\<open>\b\<close>: ASCII letters, digits and the underscore\<close>
  "is_word c = (is_upper c \<or> is_lower c \<or> is_digit c \<or> c = of_char CHR ''_'')"

text \<open>
  Case folding of the \<^verbatim>\<open>i\<close> flag (without the \<^verbatim>\<open>u\<close> flag): a code unit outside ASCII never
  folds to an ASCII one, so against ASCII patterns only the ASCII letters fold.
\<close>

definition upper :: "cu \<Rightarrow> cu" where
  "upper c = (if is_lower c then c - 32 else c)"

definition lower :: "cu \<Rightarrow> cu" where
  "lower c = (if is_upper c then c + 32 else c)"

definition toUpperCase :: "jstring \<Rightarrow> jstring" where
  \<comment> \<open>the source applies it to a matched role keyword only, which is made of ASCII letters\<close>
  "toUpperCase s = map upper s"

definition trim :: "jstring \<Rightarrow> jstring" where
  "trim s = rev (dropWhile is_space (rev (dropWhile is_space s)))"

section \<open>Regular expressions\<close>

text \<open>
  The patterns of the source, as syntax trees. Every quantifier of the source applies to a
  single character or character class, so \<open>Rep\<close> quantifies a class.
\<close>

datatype atom =
    Ch char            \<comment> \<open>the character itself\<close>
  | Rng char char      \<comment> \<open>a range \<^verbatim>\<open>a-z\<close>\<close>
  | Sp                 \<comment> \<open>\<^verbatim>\<open>\s\<close>\<close>
  | Dg                 \<comment> \<open>\<^verbatim>\<open>\d\<close>\<close>

datatype rx =
    Lit string                          \<comment> \<open>a sequence of literal characters\<close>
  | Cls "atom list"                     \<comment> \<open>one character of the class\<close>
  | Rep "atom list" nat "nat option" bool
                                        \<comment> \<open>class, at least, at most, greedy\<close>
  | Seq rx rx
  | Or rx rx
  | Cap nat rx                          \<comment> \<open>capturing group with its number\<close>
  | Bos                                 \<comment> \<open>\<^verbatim>\<open>^\<close>\<close>
  | Eos                                 \<comment> \<open>\<^verbatim>\<open>$\<close>\<close>
  | WordB                               \<comment> \<open>\<^verbatim>\<open>\b\<close>\<close>
  | Look rx                             \<comment> \<open>\<^verbatim>\<open>(?=...)\<close>\<close>

text \<open>A pattern with its \<^verbatim>\<open>i\<close> flag.\<close>

type_synonym regex = "rx \<times> bool"

type_synonym caps = "(nat \<times> jstring) list"

fun atom_ok :: "bool \<Rightarrow> atom \<Rightarrow> cu \<Rightarrow> bool" where
  "atom_ok ic (Ch d) c = (c = of_char d \<or> (ic \<and> upper c = upper (of_char d)))"
| "atom_ok ic (Rng lo hi) c =
     (in_range lo hi c \<or> (ic \<and> (in_range lo hi (upper c) \<or> in_range lo hi (lower c))))"
| "atom_ok ic Sp c = is_space c"
| "atom_ok ic Dg c = is_digit c"

definition cls_ok :: "bool \<Rightarrow> atom list \<Rightarrow> cu \<Rightarrow> bool" where
  "cls_ok ic A c = list_ex (\<lambda>a. atom_ok ic a c) A"

fun lit_ok :: "bool \<Rightarrow> string \<Rightarrow> jstring \<Rightarrow> bool" where
  "lit_ok ic [] s = True"
| "lit_ok ic (d # l) [] = False"
| "lit_ok ic (d # l) (x # s) = (atom_ok ic (Ch d) x \<and> lit_ok ic l s)"

definition prev_at :: "cu option \<Rightarrow> jstring \<Rightarrow> nat \<Rightarrow> cu option" where
  \<comment> \<open>the character before the position reached after \<open>k\<close> characters of \<open>s\<close>\<close>
  "prev_at p s k = (if take k s = [] then p else Some (last (take k s)))"

definition word_opt :: "cu option \<Rightarrow> bool" where
  "word_opt p = (case p of None \<Rightarrow> False | Some c \<Rightarrow> is_word c)"

definition next_of :: "jstring \<Rightarrow> cu option" where
  "next_of s = (case s of [] \<Rightarrow> None | x # _ \<Rightarrow> Some x)"

text \<open>
  The backtracking matcher: all the ways the pattern matches at the current position, in
  the order a backtracking engine tries them, each as the number of characters consumed
  with the captures. \<open>p\<close> is the character before the position (\<open>None\<close> at the start of the
  input) and \<open>s\<close> the rest of the input.
\<close>

fun run :: "bool \<Rightarrow> rx \<Rightarrow> cu option \<Rightarrow> jstring \<Rightarrow> caps \<Rightarrow> (nat \<times> caps) list" where
  "run ic (Lit l) p s c = (if lit_ok ic l s then [(length l, c)] else [])"
| "run ic (Cls A) p s c =
     (case s of [] \<Rightarrow> [] | x # _ \<Rightarrow> if cls_ok ic A x then [(1, c)] else [])"
| "run ic (Rep A lo hi g) p s c =
     (let n = length (takeWhile (cls_ok ic A) s);
          m = (case hi of None \<Rightarrow> n | Some h \<Rightarrow> min h n)
      in if m < lo then []
         else map (\<lambda>k. (k, c)) (if g then rev [lo..<Suc m] else [lo..<Suc m]))"
| "run ic (Seq a b) p s c =
     concat (map (\<lambda>(k, c'). map (\<lambda>(k', c''). (k + k', c''))
                                (run ic b (prev_at p s k) (drop k s) c'))
                 (run ic a p s c))"
| "run ic (Or a b) p s c = run ic a p s c @ run ic b p s c"
| "run ic (Cap n a) p s c = map (\<lambda>(k, c'). (k, (n, take k s) # c')) (run ic a p s c)"
| "run ic Bos p s c = (if p = None then [(0, c)] else [])"
| "run ic Eos p s c = (if s = [] then [(0, c)] else [])"
| "run ic WordB p s c = (if word_opt p \<noteq> word_opt (next_of s) then [(0, c)] else [])"
| "run ic (Look a) p s c = (case run ic a p s c of [] \<Rightarrow> [] | (k, c') # _ \<Rightarrow> [(0, c')])"

definition exec_at :: "regex \<Rightarrow> cu option \<Rightarrow> jstring \<Rightarrow> (nat \<times> caps) option" where
  \<comment> \<open>the match at the current position: the first way that succeeds\<close>
  "exec_at r p s = (case run (snd r) (fst r) p s [] of [] \<Rightarrow> None | m # _ \<Rightarrow> Some m)"

fun search :: "regex \<Rightarrow> cu option \<Rightarrow> jstring \<Rightarrow> (jstring \<times> nat \<times> caps) option" where
  \<comment> \<open>the leftmost match: the text skipped before it, its length, its captures\<close>
  "search r p [] = (case exec_at r p [] of None \<Rightarrow> None | Some (k, c) \<Rightarrow> Some ([], k, c))"
| "search r p (x # xs) =
     (case exec_at r p (x # xs) of
        Some (k, c) \<Rightarrow> Some ([], k, c)
      | None \<Rightarrow> (case search r (Some x) xs of
                   None \<Rightarrow> None
                 | Some (u, k, c) \<Rightarrow> Some (x # u, k, c)))"

definition test :: "regex \<Rightarrow> jstring \<Rightarrow> bool" where
  "test r s = (search r None s \<noteq> None)"

text \<open>\<^verbatim>\<open>s.match(r)\<close> for a pattern without the \<^verbatim>\<open>g\<close> flag: the captures of the leftmost match.\<close>

definition match_rx :: "regex \<Rightarrow> jstring \<Rightarrow> caps option" where
  "match_rx r s = (case search r None s of None \<Rightarrow> None | Some (u, k, c) \<Rightarrow> Some c)"

text \<open>A replacement string: text and \<^verbatim>\<open>$n\<close> references.\<close>

datatype part = T string | G nat

fun expand :: "part list \<Rightarrow> caps \<Rightarrow> jstring" where
  "expand [] c = []"
| "expand (T t # ps) c = js t @ expand ps c"
| "expand (G n # ps) c = (case map_of c n of None \<Rightarrow> [] | Some g \<Rightarrow> g) @ expand ps c"

text \<open>
  \<^verbatim>\<open>s.replace(r, t)\<close> for a pattern with the \<^verbatim>\<open>g\<close> flag: every match, left to right, each
  search starting where the last match ended (one character further after an empty match).
\<close>

fun replace_from :: "regex \<Rightarrow> part list \<Rightarrow> cu option \<Rightarrow> jstring \<Rightarrow> jstring" where
  "replace_from r t p [] = (case exec_at r p [] of None \<Rightarrow> [] | Some (k, c) \<Rightarrow> expand t c)"
| "replace_from r t p (x # xs) =
     (case exec_at r p (x # xs) of
        None \<Rightarrow> x # replace_from r t (Some x) xs
      | Some (k, c) \<Rightarrow>
          expand t c @
            (if k = 0 then x # replace_from r t (Some x) xs
             else replace_from r t (prev_at p (x # xs) k) (drop k (x # xs))))"

definition replace_all :: "regex \<Rightarrow> part list \<Rightarrow> jstring \<Rightarrow> jstring" where
  "replace_all r t s = replace_from r t None s"

text \<open>\<^verbatim>\<open>s.replace(r, t)\<close> for a pattern without the \<^verbatim>\<open>g\<close> flag: the leftmost match only.\<close>

definition replace_first :: "regex \<Rightarrow> part list \<Rightarrow> jstring \<Rightarrow> jstring" where
  "replace_first r t s =
     (case search r None s of
        None \<Rightarrow> s
      | Some (u, k, c) \<Rightarrow> u @ expand t c @ drop (length u + k) s)"

text \<open>
  \<^verbatim>\<open>s.split(r)\<close> for a pattern without capturing groups: \<open>acc\<close> is the piece collected since
  the last separator; a match that ends where the piece starts is skipped.
\<close>

function split_from :: "regex \<Rightarrow> cu option \<Rightarrow> jstring \<Rightarrow> jstring \<Rightarrow> jstring list" where
  "split_from r p [] acc = [acc]"
| "split_from r p (x # xs) acc =
     (case exec_at r p (x # xs) of
        None \<Rightarrow> split_from r (Some x) xs (acc @ [x])
      | Some (k, c) \<Rightarrow>
          if k = 0 \<and> acc = [] then split_from r (Some x) xs (acc @ [x])
          else acc # split_from r (prev_at p (x # xs) k) (drop k (x # xs)) [])"
  by pat_completeness auto
termination
  by (relation "measures [\<lambda>(r, p, s, acc). length s, \<lambda>(r, p, s, acc). if acc = [] then 0 else 1]")
     auto

definition split_rx :: "regex \<Rightarrow> jstring \<Rightarrow> jstring list" where
  "split_rx r s =
     (if s = [] then (case exec_at r None [] of None \<Rightarrow> [[]] | Some m \<Rightarrow> [])
      else split_from r None s [])"

fun cat :: "rx list \<Rightarrow> rx" where
  \<comment> \<open>a sequence of pattern terms\<close>
  "cat [] = Lit []"
| "cat [r] = r"
| "cat (r # rs) = Seq r (cat rs)"

fun alts :: "rx list \<Rightarrow> rx" where
  \<comment> \<open>alternatives \<^verbatim>\<open>a|b|c\<close>, tried from the left\<close>
  "alts [] = Lit []"
| "alts [r] = r"
| "alts (r # rs) = Or r (alts rs)"

abbreviation star :: "atom list \<Rightarrow> rx" where
  "star A \<equiv> Rep A 0 None True"

abbreviation plus :: "atom list \<Rightarrow> rx" where
  "plus A \<equiv> Rep A 1 None True"

abbreviation opt :: "atom list \<Rightarrow> rx" where
  "opt A \<equiv> Rep A 0 (Some 1) True"

section \<open>The normalizer: \<^verbatim>\<open>preClean\<close>\<close>

definition rx_cr :: regex where
  \<comment> \<open>\<^verbatim>\<open>/\r/g\<close>\<close>
  "rx_cr = (Cls [Ch (CHR 0x0D)], False)"

definition rx_newlines :: regex where
  \<comment> \<open>\<^verbatim>\<open>/\n{2,}/g\<close>\<close>
  "rx_newlines = (Rep [Ch CHR ''\<newline>''] 2 None True, False)"

definition rx_blanks :: regex where
  \<comment> \<open>\<^verbatim>\<open>/[ \t]{2,}/g\<close>\<close>
  "rx_blanks = (Rep [Ch CHR '' '', Ch (CHR 0x09)] 2 None True, False)"

definition rx_ariety :: regex where
  \<comment> \<open>\<^verbatim>\<open>/ariety/gi\<close>\<close>
  "rx_ariety = (Lit ''ariety'', True)"

definition rx_weight_fix :: regex where
  \<comment> \<open>\<^verbatim>\<open>/We[il1]?ght/gi\<close>\<close>
  "rx_weight_fix = (cat [Lit ''We'', opt [Ch CHR ''i'', Ch CHR ''l'', Ch CHR ''1''], Lit ''ght''], True)"

definition rx_legs_fix :: regex where
  \<comment> \<open>\<^verbatim>\<open>/Leg[s5]/gi\<close>\<close>
  "rx_legs_fix = (cat [Lit ''Leg'', Cls [Ch CHR ''s'', Ch CHR ''5'']], True)"

definition rx_reg_fix :: regex where
  \<comment> \<open>\<^verbatim>\<open>/\bRe[gq][\.\s#:]*/gi\<close>\<close>
  "rx_reg_fix =
     (cat [WordB, Lit ''Re'', Cls [Ch CHR ''g'', Ch CHR ''q''],
           star [Ch CHR ''.'', Sp, Ch CHR ''#'', Ch CHR '':'']], True)"

definition rx_gc_fix :: regex where
  \<comment> \<open>\<^verbatim>\<open>/\b[Gg][Cc][\.\s#:]*/g\<close>\<close>
  "rx_gc_fix =
     (cat [WordB, Cls [Ch CHR ''G'', Ch CHR ''g''], Cls [Ch CHR ''C'', Ch CHR ''c''],
           star [Ch CHR ''.'', Sp, Ch CHR ''#'', Ch CHR '':'']], False)"

definition ear_tail :: "atom list" where
  \<comment> \<open>\<^verbatim>\<open>[\s#:]\<close>\<close>
  "ear_tail = [Sp, Ch CHR ''#'', Ch CHR '':'']"

definition ear_sep :: "cu \<Rightarrow> bool" where
  \<comment> \<open>a character that the tail \<^verbatim>\<open>[\s#:]*\<close> of the Ear pattern takes\<close>
  "ear_sep c = cls_ok False ear_tail c"

definition rx_ear_fix :: regex where
  \<comment> \<open>\<^verbatim>\<open>/[Ee]ar[\s#:]*/g\<close>\<close>
  "rx_ear_fix = (cat [Cls [Ch CHR ''E'', Ch CHR ''e''], Lit ''ar'', star ear_tail], False)"

definition date_chars :: "atom list" where
  \<comment> \<open>\<^verbatim>\<open>[0-9OIl\-\/\.]\<close>\<close>
  "date_chars = [Rng CHR ''0'' CHR ''9'', Ch CHR ''O'', Ch CHR ''I'', Ch CHR ''l'',
                 Ch CHR ''-'', Ch CHR ''/'', Ch CHR ''.'']"

definition rx_born_fix :: regex where
  \<comment> \<open>\<^verbatim>\<open>/\bBorn[\s:]*([0-9OIl\-\/\.]+)/gi\<close>\<close>
  "rx_born_fix =
     (cat [WordB, Lit ''Born'', star [Sp, Ch CHR '':''], Cap 1 (plus date_chars)], True)"

definition rx_lb_fix :: regex where
  \<comment> \<open>\<^verbatim>\<open>/([0-9])\s*[il1]b\b/gi\<close>\<close>
  "rx_lb_fix =
     (cat [Cap 1 (Cls [Rng CHR ''0'' CHR ''9'']), star [Sp],
           Cls [Ch CHR ''i'', Ch CHR ''l'', Ch CHR ''1''], Lit ''b'', WordB], True)"

definition rx_oz_fix :: regex where
  \<comment> \<open>\<^verbatim>\<open>/\b([0-9])\s*[o0]z\b/gi\<close>\<close>
  "rx_oz_fix =
     (cat [WordB, Cap 1 (Cls [Rng CHR ''0'' CHR ''9'']), star [Sp],
           Cls [Ch CHR ''o'', Ch CHR ''0''], Lit ''z'', WordB], True)"

definition rx_pipe :: regex where
  \<comment> \<open>\<^verbatim>\<open>/[|]/g\<close>\<close>
  "rx_pipe = (Cls [Ch CHR ''|''], False)"

definition reg_rule :: "jstring \<Rightarrow> jstring" where
  "reg_rule s = replace_all rx_reg_fix [T ''Reg # ''] s"

definition gc_rule :: "jstring \<Rightarrow> jstring" where
  "gc_rule s = replace_all rx_gc_fix [T ''GC # ''] s"

definition ear_rule :: "jstring \<Rightarrow> jstring" where
  "ear_rule s = replace_all rx_ear_fix [T ''Ear # ''] s"

definition born_rule :: "jstring \<Rightarrow> jstring" where
  "born_rule s = replace_all rx_born_fix [T ''Born: '', G 1] s"

definition preClean :: "jstring \<Rightarrow> jstring" where
  "preClean s =
     (let s1 = replace_all rx_cr [T ''\<newline>''] s;
          s2 = replace_all rx_newlines [T ''\<newline>''] s1;
          s3 = replace_all rx_blanks [T '' ''] s2;
          s4 = replace_all rx_ariety [T ''Variety''] s3;
          s5 = replace_all rx_weight_fix [T ''Weight''] s4;
          s6 = replace_all rx_legs_fix [T ''Legs''] s5;
          s7 = reg_rule s6;
          s8 = gc_rule s7;
          s9 = ear_rule s8;
          s10 = born_rule s9;
          s11 = replace_all rx_lb_fix [G 1, T '' lb''] s10;
          s12 = replace_all rx_oz_fix [G 1, T '' oz''] s11;
          s13 = replace_all rx_pipe [T '' ''] s12
      in trim s13)"

section \<open>The segmenter: \<^verbatim>\<open>segmentRabbits\<close>\<close>

record sect =
  role :: jstring
  block :: jstring

definition role_words :: rx where
  \<comment> \<open>\<^verbatim>\<open>Name|Sire|Dam\<close>\<close>
  "role_words = alts [Lit ''Name'', Lit ''Sire'', Lit ''Dam'']"

definition rx_keyword :: regex where
  \<comment> \<open>\<^verbatim>\<open>/\b(Name|Sire|Dam)\b\s*:?/gi\<close>\<close>
  "rx_keyword = (cat [WordB, Cap 1 role_words, WordB, star [Sp], opt [Ch CHR '':'']], True)"

definition rx_marker :: regex where
  \<comment> \<open>\<^verbatim>\<open>/\n===\s*/\<close>\<close>
  "rx_marker = (cat [Lit ''\<newline>==='', star [Sp]], False)"

definition rx_tag :: regex where
  \<comment> \<open>\<^verbatim>\<open>/^((Name|Sire|Dam))\s*===?\s*/i\<close>\<close>
  "rx_tag =
     (cat [Bos, Cap 1 (Cap 2 role_words), star [Sp], Lit ''=='', opt [Ch CHR ''=''], star [Sp]],
      True)"

definition rx_name_start :: regex where
  \<comment> \<open>\<^verbatim>\<open>/^Name[:\s]/i\<close>\<close>
  "rx_name_start = (cat [Bos, Lit ''Name'', Cls [Ch CHR '':'', Sp]], True)"

definition roleRank :: "jstring \<Rightarrow> nat" where
  \<comment> \<open>the table \<^verbatim>\<open>order\<close>; the roles the segmenter produces are its four keys\<close>
  "roleRank r =
     (if r = js ''NAME'' then 0 else if r = js ''SIRE'' then 1 else if r = js ''DAM'' then 2
      else if r = js ''UNKNOWN'' then 3 else 3)"

abbreviation (input) marker_of :: "part list" where
  \<comment> \<open>the replacement \<^verbatim>\<open>'\n=== $1 ===\n'\<close>\<close>
  "marker_of \<equiv> [T ''\<newline>=== '', G 1, T '' ===\<newline>'']"

definition tag_chunk :: "jstring \<Rightarrow> sect" where
  \<comment> \<open>the body of the loop over the chunks\<close>
  "tag_chunk chunk =
     (case match_rx rx_tag chunk of
        Some m \<Rightarrow>
          \<lparr>role = toUpperCase (case map_of m 1 of None \<Rightarrow> [] | Some g \<Rightarrow> g),
           block = replace_first rx_tag [] chunk\<rparr>
      | None \<Rightarrow>
          if test rx_name_start chunk then \<lparr>role = js ''NAME'', block = chunk\<rparr>
          else \<lparr>role = js ''UNKNOWN'', block = chunk\<rparr>)"

text \<open>
  \<^verbatim>\<open>result.sort((a,b) => roleRank(a.role) - roleRank(b.role))\<close> orders the sections by
  rank and keeps the order of sections of equal rank, as the insertion sort \<open>sort_key\<close> does.
\<close>

definition segmentRabbits :: "jstring \<Rightarrow> sect list" where
  "segmentRabbits s =
     (let marked = replace_all rx_keyword marker_of s;
          chunks = filter (\<lambda>x. x \<noteq> []) (map trim (split_rx rx_marker marked));
          result = map tag_chunk chunks
      in sort_key (\<lambda>a. roleRank (role a)) result)"

section \<open>The field extractor: \<^verbatim>\<open>parseSection\<close> and \<^verbatim>\<open>normalizeDate\<close>\<close>

record rabbit =
  Role :: jstring
  Name :: jstring
  Ear :: jstring
  Reg :: jstring
  GC :: jstring
  Variety :: jstring
  Weight :: jstring
  Legs :: jstring
  Born :: jstring

definition group :: "caps \<Rightarrow> nat \<Rightarrow> jstring" where
  \<comment> \<open>\<^verbatim>\<open>m[n]\<close> where the source uses it as a string: nothing captured reads as empty\<close>
  "group m n = (case map_of m n of None \<Rightarrow> [] | Some g \<Rightarrow> g)"

definition name_chars :: "atom list" where
  \<comment> \<open>\<^verbatim>\<open>[A-Za-z0-9'&\-\s]\<close>\<close>
  "name_chars = [Rng CHR ''A'' CHR ''Z'', Rng CHR ''a'' CHR ''z'', Rng CHR ''0'' CHR ''9'',
                 Ch (CHR 0x27), Ch CHR ''&'', Ch CHR ''-'', Sp]"

definition id_chars :: "atom list" where
  \<comment> \<open>\<^verbatim>\<open>[A-Z0-9\-]\<close>\<close>
  "id_chars = [Rng CHR ''A'' CHR ''Z'', Rng CHR ''0'' CHR ''9'', Ch CHR ''-'']"

definition digits :: "atom list" where
  \<comment> \<open>\<^verbatim>\<open>[0-9]\<close>\<close>
  "digits = [Rng CHR ''0'' CHR ''9'']"

definition rx_newline :: regex where
  \<comment> \<open>\<^verbatim>\<open>/\n/g\<close>\<close>
  "rx_newline = (Cls [Ch CHR ''\<newline>''], False)"

definition rx_name :: regex where
  \<comment> \<open>\<^verbatim>\<open>/(Name|Rabbit|Animal)[:\s]+([A-Za-z0-9'&\-\s]{3,})/\<close>\<close>
  "rx_name =
     (cat [Cap 1 (alts [Lit ''Name'', Lit ''Rabbit'', Lit ''Animal'']), plus [Ch CHR '':'', Sp],
           Cap 2 (Rep name_chars 3 None True)], False)"

definition rx_ear :: regex where
  \<comment> \<open>\<^verbatim>\<open>/Ear\s*#[:\s]*([A-Z0-9\-]+)\b/i\<close>\<close>
  "rx_ear =
     (cat [Lit ''Ear'', star [Sp], Lit ''#'', star [Ch CHR '':'', Sp], Cap 1 (plus id_chars), WordB],
      True)"

definition rx_reg :: regex where
  \<comment> \<open>\<^verbatim>\<open>/Reg\s*#[:\s]*([A-Z0-9\-]+)\b/i\<close>\<close>
  "rx_reg =
     (cat [Lit ''Reg'', star [Sp], Lit ''#'', star [Ch CHR '':'', Sp], Cap 1 (plus id_chars), WordB],
      True)"

definition rx_gc :: regex where
  \<comment> \<open>\<^verbatim>\<open>/\bGC\s*#[:\s]*([A-Z0-9\-]+)\b/i\<close>\<close>
  "rx_gc =
     (cat [WordB, Lit ''GC'', star [Sp], Lit ''#'', star [Ch CHR '':'', Sp], Cap 1 (plus id_chars),
           WordB], True)"

definition labels :: "rx list" where
  \<comment> \<open>\<^verbatim>\<open>Weight|Legs|Ear|Reg|GC|Born|Sire|Dam\<close>\<close>
  "labels = [Lit ''Weight'', Lit ''Legs'', Lit ''Ear'', Lit ''Reg'', Lit ''GC'', Lit ''Born'',
             Lit ''Sire'', Lit ''Dam'']"

definition variety_rx :: "rx \<Rightarrow> regex" where
  \<comment> \<open>\<^verbatim>\<open>/Variety[:\s]+([A-Za-z][A-Za-z\s\(\)\/\-]+?)\b(?=...)/i\<close> with the body of its lookahead\<close>
  "variety_rx ahead =
     (cat [Lit ''Variety'', plus [Ch CHR '':'', Sp],
           Cap 1 (cat [Cls [Rng CHR ''A'' CHR ''Z'', Rng CHR ''a'' CHR ''z''],
                       Rep [Rng CHR ''A'' CHR ''Z'', Rng CHR ''a'' CHR ''z'', Sp, Ch CHR ''('',
                            Ch CHR '')'', Ch CHR ''/'', Ch CHR ''-''] 1 None False]),
           WordB, Look ahead], True)"

definition rx_variety :: regex where
  \<comment> \<open>\<^verbatim>\<open>/Variety[:\s]+([A-Za-z][A-Za-z\s\(\)\/\-]+?)\b(?=Weight|Legs|Ear|Reg|GC|Born|Sire|Dam|$)/i\<close>\<close>
  "rx_variety = variety_rx (alts (labels @ [Eos]))"

definition rx_variety_labels :: regex where
  \<comment> \<open>the variety pattern without the branch \<^verbatim>\<open>$\<close> of its lookahead\<close>
  "rx_variety_labels = variety_rx (alts labels)"

definition rx_weight :: regex where
  \<comment> \<open>\<^verbatim>\<open>/Weight[:\s]*([0-9]{1,2}\s*lb\s*[0-9]{1,2}\s*oz)/i\<close>\<close>
  "rx_weight =
     (cat [Lit ''Weight'', star [Ch CHR '':'', Sp],
           Cap 1 (cat [Rep digits 1 (Some 2) True, star [Sp], Lit ''lb'', star [Sp],
                       Rep digits 1 (Some 2) True, star [Sp], Lit ''oz''])], True)"

definition rx_legs :: regex where
  \<comment> \<open>\<^verbatim>\<open>/Legs?[:\s]*([0-9]{1,2})\b/i\<close>\<close>
  "rx_legs =
     (cat [Lit ''Leg'', opt [Ch CHR ''s''], star [Ch CHR '':'', Sp],
           Cap 1 (Rep digits 1 (Some 2) True), WordB], True)"

definition rx_born :: regex where
  \<comment> \<open>\<^verbatim>\<open>/Born[:\s]*([0-9OIl\-\/\.]{6,12})/i\<close>\<close>
  "rx_born =
     (cat [Lit ''Born'', star [Ch CHR '':'', Sp], Cap 1 (Rep date_chars 6 (Some 12) True)], True)"

definition rx_role_parent :: regex where
  \<comment> \<open>\<^verbatim>\<open>/^(SIRE|DAM)/i\<close>\<close>
  "rx_role_parent = (cat [Bos, Cap 1 (alts [Lit ''SIRE'', Lit ''DAM''])], True)"

definition rx_infer :: regex where
  \<comment> \<open>\<^verbatim>\<open>/^(?:Sire|Dam)[:\s]+([A-Za-z0-9'&\-\s]{3,})/i\<close>\<close>
  "rx_infer =
     (cat [Bos, alts [Lit ''Sire'', Lit ''Dam''], plus [Ch CHR '':'', Sp],
           Cap 1 (Rep name_chars 3 None True)], True)"

definition grab :: "jstring \<Rightarrow> regex \<Rightarrow> jstring" where
  \<comment> \<open>the inner function \<^verbatim>\<open>grab\<close>, with the padded block \<^verbatim>\<open>blk\<close> it closes over\<close>
  "grab blk r =
     (case match_rx r blk of
        None \<Rightarrow> []
      | Some m \<Rightarrow> trim (if group m 2 \<noteq> [] then group m 2 else group m 1))"

definition rx_O :: regex where
  "rx_O = (Cls [Ch CHR ''O''], False)"

definition rx_Il :: regex where
  "rx_Il = (Cls [Ch CHR ''I'', Ch CHR ''l''], False)"

definition rx_dot :: regex where
  "rx_dot = (Cls [Ch CHR ''.''], False)"

definition rx_dash :: regex where
  "rx_dash = (Cls [Ch CHR ''-''], False)"

definition rx_date :: regex where
  \<comment> \<open>\<^verbatim>\<open>/^(\d{1,2})\/(\d{1,2})\/(\d{2,4})$/\<close>\<close>
  "rx_date =
     (cat [Bos, Cap 1 (Rep [Dg] 1 (Some 2) True), Lit ''/'', Cap 2 (Rep [Dg] 1 (Some 2) True),
           Lit ''/'', Cap 3 (Rep [Dg] 2 (Some 4) True), Eos], False)"

definition to_number :: "jstring \<Rightarrow> nat" where
  \<comment> \<open>unary \<^verbatim>\<open>+\<close> on a string of decimal digits\<close>
  "to_number s = foldl (\<lambda>n c. 10 * n + (c - 48)) 0 s"

definition padStart :: "nat \<Rightarrow> char \<Rightarrow> jstring \<Rightarrow> jstring" where
  "padStart n c s = replicate (n - length s) (of_char c) @ s"

definition normalizeDate :: "jstring \<Rightarrow> jstring" where
  "normalizeDate s =
     (if s = [] then []
      else
        let t = replace_all rx_dash [T ''/'']
                  (replace_all rx_dot [T ''/'']
                     (replace_all rx_Il [T ''1''] (replace_all rx_O [T ''0''] s)))
        in case match_rx rx_date t of
             None \<Rightarrow> trim s
           | Some m \<Rightarrow>
               let mm = group m 1; dd = group m 2; yy = group m 3;
                   yy' = (if length yy = 2
                          then (if 70 \<le> to_number yy then js ''19'' else js ''20'') @ yy
                          else yy)
               in padStart 2 CHR ''0'' mm @ js ''/'' @ padStart 2 CHR ''0'' dd @ js ''/'' @ yy')"

definition inferredName :: "sect \<Rightarrow> jstring \<Rightarrow> jstring" where
  "inferredName sec blk =
     (if grab blk rx_name = [] \<and> test rx_role_parent (role sec) then grab blk rx_infer else [])"

definition parseSection :: "sect \<Rightarrow> rabbit" where
  "parseSection sec =
     (let blk = js '' '' @ replace_all rx_newline [T '' ''] (block sec) @ js '' ''
      in \<lparr>Role = role sec,
          Name = (if grab blk rx_name \<noteq> [] then grab blk rx_name else inferredName sec blk),
          Ear = grab blk rx_ear,
          Reg = grab blk rx_reg,
          GC = grab blk rx_gc,
          Variety = grab blk rx_variety,
          Weight = grab blk rx_weight,
          Legs = grab blk rx_legs,
          Born = normalizeDate (grab blk rx_born)\<rparr>)"

section \<open>The renderers: \<^verbatim>\<open>renderReadable\<close> and \<^verbatim>\<open>renderTSV\<close>\<close>

datatype error =
    TypeError        \<comment> \<open>calling a method the value does not have\<close>
  | EngineFailure    \<comment> \<open>a rejected promise of the OCR worker\<close>

function show_nat :: "nat \<Rightarrow> jstring" where
  \<comment> \<open>the decimal digits of the row number \<^verbatim>\<open>i+1\<close>\<close>
  "show_nat n = (if n < 10 then [48 + n] else show_nat (n div 10) @ [48 + n mod 10])"
  by pat_completeness auto
termination
  by (relation "measure id") auto

fun join :: "jstring \<Rightarrow> jstring list \<Rightarrow> jstring" where
  "join sep [] = []"
| "join sep [x] = x"
| "join sep (x # y # ys) = x @ sep @ join sep (y # ys)"

definition rx_amp :: regex where
  "rx_amp = (Cls [Ch CHR ''&''], False)"

definition rx_lt :: regex where
  "rx_lt = (Cls [Ch CHR ''<''], False)"

definition field_line :: "string \<Rightarrow> jstring \<Rightarrow> jstring list" where
  \<comment> \<open>\<^verbatim>\<open>if (r.X) lines.push(`  X: ${r.X}`)\<close>\<close>
  "field_line label v = (if v \<noteq> [] then [js label @ v] else [])"

definition rabbit_lines :: "nat \<Rightarrow> rabbit \<Rightarrow> jstring list" where
  \<comment> \<open>the lines pushed for row \<open>i\<close>; 8212 is the dash of the header line\<close>
  "rabbit_lines i r =
     [js ''R'' @ show_nat (i + 1) @ js '' '' @ [8212] @ js '' '' @ Role r]
     @ field_line ''  Name: '' (Name r)
     @ field_line ''  Variety: '' (Variety r)
     @ field_line ''  Ear #: '' (Ear r)
     @ field_line ''  Reg #: '' (Reg r)
     @ field_line ''  GC #: '' (GC r)
     @ field_line ''  Weight: '' (Weight r)
     @ field_line ''  Legs: '' (Legs r)
     @ field_line ''  Born: '' (Born r)
     @ [[]]"

definition renderReadable :: "rabbit list \<Rightarrow> jstring" where
  "renderReadable rows =
     join (js ''<br>'')
       (map (\<lambda>l. replace_all rx_lt [T ''&lt;''] (replace_all rx_amp [T ''&amp;''] l))
            (concat (map (\<lambda>(i, r). rabbit_lines i r) (enumerate 0 rows))))"

text \<open>The cells of a row of \<^verbatim>\<open>renderTSV\<close> are a number and nine strings.\<close>

datatype jsval = JNum nat | JStr jstring

definition rx_tab :: regex where
  \<comment> \<open>\<^verbatim>\<open>/\t/g\<close>\<close>
  "rx_tab = (Cls [Ch (CHR 0x09)], False)"

definition rx_crlf :: regex where
  \<comment> \<open>\<^verbatim>\<open>/\r?\n/g\<close>\<close>
  "rx_crlf = (cat [opt [Ch (CHR 0x0D)], Lit ''\<newline>''], False)"

fun safe :: "jsval \<Rightarrow> error + jstring" where
  \<comment> \<open>\<^verbatim>\<open>(v || '')\<close> is \<^verbatim>\<open>v\<close> itself unless \<^verbatim>\<open>v\<close> is falsy; a number has no method \<^verbatim>\<open>replace\<close>\<close>
  "safe (JStr v) = Inr (trim (replace_all rx_crlf [T '' ''] (replace_all rx_tab [T '' ''] v)))"
| "safe (JNum n) = (if n = 0 then Inr [] else Inl TypeError)"

fun map_result :: "('a \<Rightarrow> error + 'b) \<Rightarrow> 'a list \<Rightarrow> error + 'b list" where
  \<comment> \<open>\<^verbatim>\<open>xs.map(f)\<close> where \<^verbatim>\<open>f\<close> may throw: the first exception ends the loop\<close>
  "map_result f [] = Inr []"
| "map_result f (x # xs) =
     (case f x of
        Inl e \<Rightarrow> Inl e
      | Inr y \<Rightarrow> (case map_result f xs of Inl e \<Rightarrow> Inl e | Inr ys \<Rightarrow> Inr (y # ys)))"

definition header :: "jstring list" where
  "header = map js [''Index'', ''Role'', ''Name'', ''Variety'', ''Ear'', ''Reg'', ''GC'', ''Weight'',
                    ''Legs'', ''Born'']"

definition cells :: "nat \<Rightarrow> rabbit \<Rightarrow> jsval list" where
  "cells i r = [JNum (i + 1), JStr (Role r), JStr (Name r), JStr (Variety r), JStr (Ear r),
                JStr (Reg r), JStr (GC r), JStr (Weight r), JStr (Legs r), JStr (Born r)]"

definition tsv_row :: "nat \<times> rabbit \<Rightarrow> error + jstring" where
  "tsv_row ir =
     (case map_result safe (cells (fst ir) (snd ir)) of
        Inl e \<Rightarrow> Inl e
      | Inr vs \<Rightarrow> Inr (join [9] vs))"

definition renderTSV :: "rabbit list \<Rightarrow> error + jstring" where
  "renderTSV rows =
     (case map_result tsv_row (enumerate 0 rows) of
        Inl e \<Rightarrow> Inl e
      | Inr body \<Rightarrow> Inr (join [10] (join [9] header # body)))"

section \<open>The driver: \<^verbatim>\<open>runOCR\<close>\<close>

text \<open>
  The OCR worker is outside the program: each of its promises either resolves or rejects,
  and \<^verbatim>\<open>await\<close> rethrows a rejection. A run is the list of worker calls and page updates it
  makes, in order, with its result. The progress callback is not part of the model.
\<close>

record engine =
  createWorker :: bool            \<comment> \<open>whether the promise resolves\<close>
  loadLanguage :: bool
  initialize :: bool
  recognize :: "jstring option"   \<comment> \<open>the recognized text, \<open>None\<close> when the promise rejects\<close>
  terminate :: bool

datatype event =
    CreateWorker | LoadLanguage | Initialize | Recognize | Terminate
  | SetOutputHTML jstring | SetTsvText jstring | SetProgressText jstring

definition done_message :: jstring where
  "done_message =
     [9989] @ js '' OCR complete '' @ [8212]
     @ js '' copy TSV into Glide (or use readable for review).''"

definition runOCR :: "engine \<Rightarrow> event list \<times> (error + unit)" where
  "runOCR eng =
     (if \<not> createWorker eng then ([CreateWorker], Inl EngineFailure)
      else if \<not> loadLanguage eng then ([CreateWorker, LoadLanguage], Inl EngineFailure)
      else if \<not> initialize eng then ([CreateWorker, LoadLanguage, Initialize], Inl EngineFailure)
      else (case recognize eng of
        None \<Rightarrow> ([CreateWorker, LoadLanguage, Initialize, Recognize], Inl EngineFailure)
      | Some text \<Rightarrow>
          (if \<not> terminate eng
           then ([CreateWorker, LoadLanguage, Initialize, Recognize, Terminate], Inl EngineFailure)
           else
             (let clean = preClean text;
                  sections = segmentRabbits clean;
                  rabbits = map parseSection sections;
                  readable = renderReadable rabbits
              in (case renderTSV rabbits of
                    Inl e \<Rightarrow>
                      ([CreateWorker, LoadLanguage, Initialize, Recognize, Terminate], Inl e)
                  | Inr tsv \<Rightarrow>
                      ([CreateWorker, LoadLanguage, Initialize, Recognize, Terminate,
                        SetOutputHTML readable, SetTsvText tsv, SetProgressText done_message],
                       Inr ()))))))"

section \<open>The occurrences of a pattern in a text\<close>

text \<open>
  What a pattern with the \<^verbatim>\<open>g\<close> flag finds in a text, with the scan of \<open>replace_from\<close>: the
  text before the first match, and for every match its first group with the text between
  the match and the next one. They serve to say which words of a text the segmenter takes
  as role keywords.
\<close>

fun text_before :: "regex \<Rightarrow> cu option \<Rightarrow> jstring \<Rightarrow> jstring" where
  "text_before r p [] = []"
| "text_before r p (x # xs) =
     (case exec_at r p (x # xs) of None \<Rightarrow> x # text_before r (Some x) xs | Some m \<Rightarrow> [])"

fun occurrences :: "regex \<Rightarrow> cu option \<Rightarrow> jstring \<Rightarrow> (jstring \<times> jstring) list" where
  "occurrences r p [] = (case exec_at r p [] of None \<Rightarrow> [] | Some (k, c) \<Rightarrow> [(group c 1, [])])"
| "occurrences r p (x # xs) =
     (case exec_at r p (x # xs) of
        None \<Rightarrow> occurrences r (Some x) xs
      | Some (k, c) \<Rightarrow>
          if k = 0
          then (group c 1, x # text_before r (Some x) xs) # occurrences r (Some x) xs
          else (group c 1, text_before r (prev_at p (x # xs) k) (drop k (x # xs)))
               # occurrences r (prev_at p (x # xs) k) (drop k (x # xs)))"

definition found_words :: "jstring \<Rightarrow> jstring list" where
  \<comment> \<open>the role keywords of a text, in upper case as the segmenter tags them\<close>
  "found_words s = map (\<lambda>(g, t). toUpperCase g) (occurrences rx_keyword None s)"

definition word_at :: "jstring \<Rightarrow> nat option" where
  \<comment> \<open>the length of the role keyword that the text starts with\<close>
  "word_at s =
     (if lit_ok True ''Name'' s then Some 4 else if lit_ok True ''Sire'' s then Some 4
      else if lit_ok True ''Dam'' s then Some 3 else None)"

definition plain :: "cu \<Rightarrow> bool" where
  \<comment> \<open>a word character; it is neither white space nor \<^verbatim>\<open>=\<close>\<close>
  "plain x = (is_word x \<and> \<not> is_space x \<and> x \<noteq> 10 \<and> x \<noteq> 61)"

definition shape :: "jstring \<Rightarrow> bool" where
  \<comment> \<open>a role keyword as the keyword pattern captures it\<close>
  "shape g = (g \<noteq> [] \<and> list_all plain g \<and> (\<forall>w. word_at (g @ w) = Some (length g)))"

definition padded :: "cu option \<Rightarrow> jstring \<Rightarrow> bool" where
  \<comment> \<open>a position in a text that ends with the space \<open>parseSection\<close> appends\<close>
  "padded p s = (if s = [] then \<not> word_opt p else last s = 32)"

section \<open>Facts about the matcher\<close>

lemmas char_defs =
  in_range_def is_space_def is_digit_def is_upper_def is_lower_def is_word_def upper_def lower_def

lemma js_Nil [simp]: "js [] = []"
  by (simp add: js_def)

lemma js_Cons [simp]: "js (c # cs) = of_char c # js cs"
  by (simp add: js_def)

lemma exec_at_Bos_inside: "exec_at (Seq Bos r, ic) (Some x) s = None"
  by (simp add: exec_at_def)

lemma search_Bos_inside: "search (Seq Bos r, ic) (Some x) s = None"
  by (induction s arbitrary: x) (simp_all add: exec_at_Bos_inside)

lemma grab_infer_padded: "grab (32 # b) rx_infer = []"
proof -
  have "exec_at rx_infer None (32 # b) = None"
    by (simp add: rx_infer_def exec_at_def prev_at_def char_defs)
  moreover have "search rx_infer (Some 32) b = None"
    by (simp add: rx_infer_def search_Bos_inside)
  ultimately show ?thesis
    by (simp add: grab_def match_rx_def)
qed

declare replace_from.simps [simp del]

subsection \<open>The Ear pattern of the normalizer\<close>

lemma run_star:
  "run ic (Rep A 0 None True) p s c =
     (length (takeWhile (cls_ok ic A) s), c)
     # map (\<lambda>k. (k, c)) (rev [0..<length (takeWhile (cls_ok ic A) s)])"
  by (simp add: Let_def)

lemma ear_sep_eq: "cls_ok False ear_tail = ear_sep"
  by (rule ext) (simp add: ear_sep_def)

lemma exec_ear_hit:
  assumes "e = 69 \<or> e = 101"
  shows "exec_at rx_ear_fix p (e # 97 # 114 # w) = Some (3 + length (takeWhile ear_sep w), [])"
  using assms
  by (auto simp add: exec_at_def rx_ear_fix_def run_star cls_ok_def prev_at_def ear_sep_eq
        simp del: run.simps(3))

lemma exec_ear_miss:
  assumes "\<not> (\<exists>e w. s = e # 97 # 114 # w \<and> (e = 69 \<or> e = 101))"
  shows "exec_at rx_ear_fix p s = None"
proof (cases s)
  case Nil
  then show ?thesis by (simp add: exec_at_def rx_ear_fix_def)
next
  case (Cons e s1)
  show ?thesis
  proof (cases "e = 69 \<or> e = 101")
    case False
    then show ?thesis using Cons by (simp add: exec_at_def rx_ear_fix_def cls_ok_def)
  next
    case True
    then have "\<not> lit_ok False ''ar'' s1"
      using assms Cons by (cases s1; cases "tl s1") auto
    then show ?thesis using Cons True
      by (auto simp add: exec_at_def rx_ear_fix_def cls_ok_def prev_at_def simp del: run.simps(3) lit_ok.simps)
  qed
qed


lemma ear_sep_letters: "\<not> ear_sep 69" "\<not> ear_sep 101"
  by (simp_all add: ear_sep_def ear_tail_def cls_ok_def char_defs)

lemma takeWhile_stop: "\<not> P e \<Longrightarrow> takeWhile P (u @ e # v) = takeWhile P u"
  by (induction u) auto

lemma drop_takeWhile_append:
  "drop (length (takeWhile P u)) (u @ v) = dropWhile P u @ v"
  by (induction u) auto

lemma prev_at_pos: "k \<noteq> 0 \<Longrightarrow> prev_at p (x # xs) k = prev_at q (x # xs) k"
  by (cases k) (simp_all add: prev_at_def)

lemma ear_from_Nil: "replace_from rx_ear_fix t p [] = []"
  by (simp add: replace_from.simps exec_ear_miss)

lemma ear_from_miss:
  assumes "\<not> (\<exists>e w. x # xs = e # 97 # 114 # w \<and> (e = 69 \<or> e = 101))"
  shows "replace_from rx_ear_fix t p (x # xs) = x # replace_from rx_ear_fix t (Some x) xs"
  using exec_ear_miss [OF assms] by (simp add: replace_from.simps)

lemma ear_from_indep: "replace_from rx_ear_fix t p s = replace_from rx_ear_fix t q s"
proof (cases s)
  case Nil
  then show ?thesis by (simp add: ear_from_Nil)
next
  case (Cons x xs)
  show ?thesis
  proof (cases "\<exists>e w. x # xs = e # 97 # 114 # w \<and> (e = 69 \<or> e = 101)")
    case True
    then obtain e w where s: "x # xs = e # 97 # 114 # w" and e: "e = 69 \<or> e = 101"
      by blast
    have "exec_at rx_ear_fix p (x # xs) = exec_at rx_ear_fix q (x # xs)"
      unfolding s using e by (simp add: exec_ear_hit)
    moreover have "\<And>k. k \<noteq> 0 \<Longrightarrow> prev_at p (x # xs) k = prev_at q (x # xs) k"
      by (rule prev_at_pos)
    ultimately show ?thesis
      unfolding Cons by (auto simp add: replace_from.simps split: option.splits)
  next
    case False
    then show ?thesis unfolding Cons by (simp add: ear_from_miss)
  qed
qed

lemma ear_from_hit:
  assumes "e = 69 \<or> e = 101"
  shows "replace_from rx_ear_fix t p (e # 97 # 114 # w)
         = expand t [] @ replace_from rx_ear_fix t None (dropWhile ear_sep w)"
proof -
  have "replace_from rx_ear_fix t p (e # 97 # 114 # w)
        = expand t [] @ replace_from rx_ear_fix t
            (prev_at p (e # 97 # 114 # w) (3 + length (takeWhile ear_sep w)))
            (drop (length (takeWhile ear_sep w)) w)"
    by (simp add: replace_from.simps exec_ear_hit [OF assms] numeral_3_eq_3)
  also have "drop (length (takeWhile ear_sep w)) w = dropWhile ear_sep w"
    by (simp add: dropWhile_eq_drop)
  finally show ?thesis
    using ear_from_indep by simp
qed

lemma ear_from_split:
  assumes e: "e = 69 \<or> e = 101"
  shows "replace_from rx_ear_fix t None (u @ e # 97 # 114 # v)
         = replace_from rx_ear_fix t None u @ expand t []
           @ replace_from rx_ear_fix t None (dropWhile ear_sep v)"
proof (induction "length u" arbitrary: u rule: less_induct)
  case less
  show ?case
  proof (cases u)
    case Nil
    then show ?thesis by (simp add: ear_from_Nil ear_from_hit [OF e])
  next
    case (Cons x u')
    show ?thesis
    proof (cases "\<exists>e' w. x # u' @ e # 97 # 114 # v = e' # 97 # 114 # w \<and> (e' = 69 \<or> e' = 101)")
      case True
      then obtain w where x: "x = 69 \<or> x = 101" and w: "u' @ e # 97 # 114 # v = 97 # 114 # w"
        by auto
      from w e obtain u'' where u': "u' = 97 # 114 # u''" and w': "w = u'' @ e # 97 # 114 # v"
        by (cases u'; cases "tl u'") auto
      have ne: "\<not> ear_sep e"
        using e ear_sep_letters by auto
      have "length (dropWhile ear_sep u'') < length u"
        using Cons u' by (simp add: length_dropWhile_le less_Suc_eq_le le_SucI)
      from less [OF this]
      have ih: "replace_from rx_ear_fix t None (dropWhile ear_sep u'' @ e # 97 # 114 # v)
                = replace_from rx_ear_fix t None (dropWhile ear_sep u'') @ expand t []
                  @ replace_from rx_ear_fix t None (dropWhile ear_sep v)" .
      have dw: "dropWhile ear_sep (u'' @ e # 97 # 114 # v) = dropWhile ear_sep u'' @ e # 97 # 114 # v"
        using ne by (induction u'') auto
      show ?thesis
        unfolding Cons u' using ih by (simp add: ear_from_hit [OF x] dw)
    next
      case False
      then have "\<not> (\<exists>e' w. x # u' = e' # 97 # 114 # w \<and> (e' = 69 \<or> e' = 101))"
        by auto
      from ear_from_miss [OF this] ear_from_miss [OF False] show ?thesis
        unfolding Cons using less [of u'] Cons ear_from_indep [of t "Some x" _ None]
        by simp
    qed
  qed
qed

declare split_from.simps [simp del]

subsection \<open>Searching, replacing and splitting\<close>

lemma run_Rep0:
  "run ic (Rep A 0 hi True) p s c =
     ((case hi of None \<Rightarrow> length (takeWhile (cls_ok ic A) s)
               | Some h \<Rightarrow> min h (length (takeWhile (cls_ok ic A) s))), c)
     # map (\<lambda>k. (k, c))
         (rev [0..<(case hi of None \<Rightarrow> length (takeWhile (cls_ok ic A) s)
                            | Some h \<Rightarrow> min h (length (takeWhile (cls_ok ic A) s)))])"
  by (simp add: Let_def)

lemma replace_none: "search r p s = None \<Longrightarrow> replace_from r t p s = s"
  by (induction s arbitrary: p) (auto simp add: replace_from.simps split: option.splits)

lemma search_found:
  "exec_at r (prev_at p u (length u)) v \<noteq> None \<Longrightarrow> search r p (u @ v) \<noteq> None"
proof (induction u arbitrary: p)
  case Nil
  then show ?case by (cases v) (auto simp add: prev_at_def split: option.splits)
next
  case (Cons x u)
  have "prev_at p (x # u) (length (x # u)) = prev_at (Some x) u (length u)"
    by (simp add: prev_at_def)
  with Cons.prems have "exec_at r (prev_at (Some x) u (length u)) v \<noteq> None"
    by simp
  from Cons.IH [OF this] show ?case
    by (auto split: option.splits)
qed

lemma search_Bos:
  "search (Seq Bos r, ic) None s =
     (case exec_at (Seq Bos r, ic) None s of None \<Rightarrow> None | Some (k, c) \<Rightarrow> Some ([], k, c))"
  by (cases s) (auto simp add: search_Bos_inside split: option.splits)

lemma lit_ok_append: "lit_ok ic l s \<Longrightarrow> lit_ok ic l (s @ w)"
  by (induction ic l s rule: lit_ok.induct) auto

lemma lit_ok_False_prefix: "lit_ok False l s = prefix (js l) s"
  by (induction False l s rule: lit_ok.induct) auto

lemma cls_Sp: "cls_ok ic [Sp] = is_space"
  by (rule ext) (simp add: cls_ok_def)

subsection \<open>The marker pattern\<close>

lemma exec_marker:
  "exec_at rx_marker q s =
     (if prefix (js ''\<newline>==='') s
      then Some (4 + length (takeWhile is_space (drop 4 s)), []) else None)"
proof -
  have four: "Suc (Suc (Suc (Suc 0))) = 4"
    by simp
  show ?thesis
    by (simp add: exec_at_def rx_marker_def run_Rep0 lit_ok_False_prefix cls_Sp four
          del: run.simps(3))
qed

lemma split_marker_none:
  "\<not> sublist (js ''\<newline>==='') s \<Longrightarrow> split_from rx_marker q s acc = [acc @ s]"
proof (induction s arbitrary: q acc)
  case Nil
  then show ?case by (simp add: split_from.simps)
next
  case (Cons x xs)
  then have "\<not> prefix (js ''\<newline>==='') (x # xs)" and "\<not> sublist (js ''\<newline>==='') xs"
    by (auto simp add: sublist_Cons_right)
  with Cons.IH [of "Some x" "acc @ [x]"] show ?case
    by (simp add: split_from.simps exec_marker)
qed


subsection \<open>The role keywords\<close>

lemma atom_ok_ci: "atom_ok True (Ch d) x = (upper x = upper (of_char d))"
  by auto

lemma upper_values:
  "upper 78 = 78" "upper 97 = 65" "upper 109 = 77" "upper 101 = 69" "upper 83 = 83"
  "upper 105 = 73" "upper 114 = 82" "upper 68 = 68"
  by (simp_all add: char_defs)

lemma upper_letter:
  assumes "upper x = n" and "65 \<le> n" and "n \<le> 90"
  shows "is_word x" and "\<not> is_space x" and "x \<noteq> 10" and "x \<noteq> 61"
  using assms by (auto simp add: char_defs split: if_splits)

lemma lit_Name:
  "lit_ok True ''Name'' s =
     (\<exists>a b c d r. s = a # b # c # d # r \<and> upper a = 78 \<and> upper b = 65 \<and> upper c = 77
        \<and> upper d = 69)"
  by (cases s; cases "tl s"; cases "tl (tl s)"; cases "tl (tl (tl s))")
     (simp_all add: atom_ok_ci upper_values del: atom_ok.simps)

lemma lit_Sire:
  "lit_ok True ''Sire'' s =
     (\<exists>a b c d r. s = a # b # c # d # r \<and> upper a = 83 \<and> upper b = 73 \<and> upper c = 82
        \<and> upper d = 69)"
  by (cases s; cases "tl s"; cases "tl (tl s)"; cases "tl (tl (tl s))")
     (simp_all add: atom_ok_ci upper_values del: atom_ok.simps)

lemma lit_Dam:
  "lit_ok True ''Dam'' s =
     (\<exists>a b c r. s = a # b # c # r \<and> upper a = 68 \<and> upper b = 65 \<and> upper c = 77)"
  by (cases s; cases "tl s"; cases "tl (tl s)")
     (simp_all add: atom_ok_ci upper_values del: atom_ok.simps)

lemma word_atD:
  assumes "word_at s = Some k"
  shows "\<exists>g r. s = g @ r \<and> length g = k \<and> g \<noteq> [] \<and> list_all plain g
           \<and> (toUpperCase g = js ''NAME'' \<or> toUpperCase g = js ''SIRE''
                \<or> toUpperCase g = js ''DAM'')
           \<and> (\<forall>w. word_at (g @ w) = Some k)"
proof -
  consider "lit_ok True ''Name'' s" "k = 4"
    | "\<not> lit_ok True ''Name'' s" "lit_ok True ''Sire'' s" "k = 4"
    | "\<not> lit_ok True ''Name'' s" "\<not> lit_ok True ''Sire'' s" "lit_ok True ''Dam'' s" "k = 3"
    using assms by (auto simp add: word_at_def split: if_splits)
  then show ?thesis
  proof cases
    case 1
    then obtain a b c d r where s: "s = a # b # c # d # r"
      and u: "upper a = 78" "upper b = 65" "upper c = 77" "upper d = 69"
      unfolding lit_Name by blast
    have "list_all plain [a, b, c, d]"
      using u by (simp add: plain_def upper_letter)
    moreover have "toUpperCase [a, b, c, d] = js ''NAME''"
      using u by (simp add: toUpperCase_def)
    moreover have "\<forall>w. word_at ([a, b, c, d] @ w) = Some k"
      using u 1 by (simp add: word_at_def atom_ok_ci upper_values del: atom_ok.simps)
    ultimately show ?thesis
      using s 1 by (intro exI [of _ "[a, b, c, d]"] exI [of _ r]) simp
  next
    case 2
    then obtain a b c d r where s: "s = a # b # c # d # r"
      and u: "upper a = 83" "upper b = 73" "upper c = 82" "upper d = 69"
      unfolding lit_Sire by blast
    have "list_all plain [a, b, c, d]"
      using u by (simp add: plain_def upper_letter)
    moreover have "toUpperCase [a, b, c, d] = js ''SIRE''"
      using u by (simp add: toUpperCase_def)
    moreover have "\<forall>w. word_at ([a, b, c, d] @ w) = Some k"
      using u 2 by (simp add: word_at_def atom_ok_ci upper_values del: atom_ok.simps)
    ultimately show ?thesis
      using s 2 by (intro exI [of _ "[a, b, c, d]"] exI [of _ r]) simp
  next
    case 3
    then obtain a b c r where s: "s = a # b # c # r"
      and u: "upper a = 68" "upper b = 65" "upper c = 77"
      unfolding lit_Dam by blast
    have "list_all plain [a, b, c]"
      using u by (simp add: plain_def upper_letter)
    moreover have "toUpperCase [a, b, c] = js ''DAM''"
      using u by (simp add: toUpperCase_def)
    moreover have "\<forall>w. word_at ([a, b, c] @ w) = Some k"
      using u 3 by (simp add: word_at_def atom_ok_ci upper_values del: atom_ok.simps)
    ultimately show ?thesis
      using s 3 by (intro exI [of _ "[a, b, c]"] exI [of _ r]) simp
  qed
qed

lemma run_role_words:
  "run True role_words p s c = (case word_at s of None \<Rightarrow> [] | Some k \<Rightarrow> [(k, c)])"
  by (auto simp add: role_words_def word_at_def lit_Name lit_Sire lit_Dam)

lemma prev_at_0 [simp]: "prev_at p s 0 = p"
  by (simp add: prev_at_def)

lemma prev_at_append: "g \<noteq> [] \<Longrightarrow> prev_at p (g @ r) (length g) = Some (last g)"
  by (simp add: prev_at_def)

lemma word_at_bounds:
  assumes "word_at s = Some k"
  shows "word_opt (next_of s)" and "word_opt (prev_at p s k)" and "k \<noteq> 0"
proof -
  from word_atD [OF assms] obtain g r where s: "s = g @ r" and k: "length g = k"
    and g: "g \<noteq> []" and pl: "list_all plain g"
    by blast
  from g pl have "plain (hd g)" and "plain (last g)"
    by (simp_all add: list_all_iff)
  then have "is_word (hd g)" and "is_word (last g)"
    by (simp_all add: plain_def)
  then show "word_opt (next_of s)" and "word_opt (prev_at p s k)"
    using s g k prev_at_append [OF g, of p r]
    by (cases g; simp add: word_opt_def next_of_def)+
  show "k \<noteq> 0"
    using g k by auto
qed

lemma exec_keyword:
  "exec_at rx_keyword p s =
     (case word_at s of
        None \<Rightarrow> None
      | Some k \<Rightarrow>
          if word_opt p \<or> word_opt (next_of (drop k s)) then None
          else Some (k + (length (takeWhile is_space (drop k s))
                          + min 1 (length (takeWhile (cls_ok True [Ch CHR '':''])
                                     (drop (length (takeWhile is_space (drop k s))) (drop k s))))),
                     [(1, take k s)]))"
proof (cases "word_at s")
  case None
  then show ?thesis
    by (simp add: exec_at_def rx_keyword_def run_role_words run_Rep0 del: run.simps(3))
next
  case (Some k)
  from word_at_bounds(1,2) [OF Some] have "word_opt (next_of s)" and "word_opt (prev_at p s k)"
    by simp_all
  with Some show ?thesis
    by (simp add: exec_at_def rx_keyword_def run_role_words run_Rep0 cls_Sp del: run.simps(3))
qed

lemma exec_keyword_Some:
  assumes "exec_at rx_keyword p s = Some (n, c)"
  shows "\<exists>k. word_at s = Some k \<and> c = [(1, take k s)] \<and> n \<noteq> 0"
  using assms word_at_bounds(3) [of s]
  by (auto simp add: exec_keyword split: option.splits if_splits)

lemma exec_keyword_hit:
  assumes "word_at s = Some k" and "\<not> word_opt p" and "\<not> word_opt (next_of (drop k s))"
  shows "exec_at rx_keyword p s \<noteq> None"
  using assms by (simp add: exec_keyword)

subsection \<open>The tag patterns of the segmenter\<close>

lemma takeWhile_holds: "k < length (takeWhile P s) \<Longrightarrow> P (s ! k) \<and> k < length s"
proof -
  assume k: "k < length (takeWhile P s)"
  then have "takeWhile P s ! k \<in> set (takeWhile P s)"
    by simp
  then have "P (takeWhile P s ! k)"
    by (rule set_takeWhileD [THEN conjunct2])
  moreover have "takeWhile P s ! k = s ! k"
    using k by (rule takeWhile_nth)
  moreover have "length (takeWhile P s) \<le> length s"
    by (rule length_takeWhile_le)
  ultimately show ?thesis using k by simp
qed

lemma star_then:
  assumes "\<And>k. k < length (takeWhile (cls_ok ic A) s)
             \<Longrightarrow> run ic X (prev_at p s k) (drop k s) c = []"
  shows "run ic (Seq (Rep A 0 None True) X) p s c =
           map (\<lambda>(k', c''). (length (takeWhile (cls_ok ic A) s) + k', c''))
             (run ic X (prev_at p s (length (takeWhile (cls_ok ic A) s)))
                (drop (length (takeWhile (cls_ok ic A) s)) s) c)"
  using assms by (simp add: run_Rep0 del: run.simps(3))

lemma star_then_lit:
  assumes "\<And>x. cls_ok ic A x \<Longrightarrow> \<not> atom_ok ic (Ch d) x"
  shows "run ic (Seq (Rep A 0 None True) (Seq (Lit (d # l)) R)) p s c =
           map (\<lambda>(k', c''). (length (takeWhile (cls_ok ic A) s) + k', c''))
             (run ic (Seq (Lit (d # l)) R)
                (prev_at p s (length (takeWhile (cls_ok ic A) s)))
                (drop (length (takeWhile (cls_ok ic A) s)) s) c)"
proof (rule star_then)
  fix k
  assume "k < length (takeWhile (cls_ok ic A) s)"
  from takeWhile_holds [OF this] have "cls_ok ic A (s ! k)" and "k < length s"
    by simp_all
  then have "\<not> lit_ok ic (d # l) (drop k s)"
    using assms [of "s ! k"] by (simp add: Cons_nth_drop_Suc [symmetric] del: atom_ok.simps)
  then show "run ic (Seq (Lit (d # l)) R) (prev_at p s k) (drop k s) c = []"
    by simp
qed

lemma space_not_eq: "cls_ok True [Sp] x \<Longrightarrow> \<not> atom_ok True (Ch CHR ''='') x"
  by (auto simp add: cls_ok_def char_defs)

lemma lit_eqeq: "lit_ok True ''=='' s = (\<exists>r. s = 61 # 61 # r)"
  by (cases s; cases "tl s") (auto simp add: char_defs)

lemma star_sp_eq:
  "run True (Seq (star [Sp]) (Seq (Lit (CHR ''='' # l)) R)) p s c =
     map (\<lambda>(k', c''). (length (takeWhile is_space s) + k', c''))
       (run True (Seq (Lit (CHR ''='' # l)) R) (prev_at p s (length (takeWhile is_space s)))
          (dropWhile is_space s) c)"
  using star_then_lit [of True "[Sp]" "CHR ''=''" l R p s c, OF space_not_eq]
  by (simp add: cls_Sp dropWhile_eq_drop del: run.simps)

lemma run_tag_outer:
  "run True (Seq Bos (Seq (Cap 1 (Cap 2 role_words)) R)) None t [] =
     (case word_at t of
        None \<Rightarrow> []
      | Some k \<Rightarrow>
          map (\<lambda>(k', c''). (k + k', c''))
            (run True R (prev_at None t k) (drop k t) [(1, take k t), (2, take k t)]))"
  by (simp add: run_role_words split: option.splits)

lemma run_lit_then:
  "run ic (Seq (Lit l) R) p s c =
     (if lit_ok ic l s
      then map (\<lambda>(k', c''). (length l + k', c''))
             (run ic R (prev_at p s (length l)) (drop (length l) s) c)
      else [])"
  by simp

lemma run_opt_star:
  "\<exists>k rest. run ic (Seq (Rep A 0 (Some 1) True) (Rep B 0 None True)) p s c = (k, c) # rest"
  by (simp add: run_Rep0 del: run.simps(3))

lemma run_tag_tail:
  "\<exists>rest. run True (cat [star [Sp], Lit ''=='', opt [Ch CHR ''=''], star [Sp]]) p s c =
             (if lit_ok True ''=='' (dropWhile is_space s) then rest else [])
           \<and> (\<exists>k rest'. rest = (k, c) # rest')"
proof -
  obtain k rest where r: "run True (Seq (opt [Ch CHR ''='']) (star [Sp]))
      (prev_at (prev_at p s (length (takeWhile is_space s))) (dropWhile is_space s)
         (length ''==''))
      (drop (length ''=='') (dropWhile is_space s)) c = (k, c) # rest"
    using run_opt_star by blast
  show ?thesis
    using r
    by (auto simp add: star_sp_eq run_lit_then simp del: run.simps lit_ok.simps One_nat_def)
qed

lemma exec_tag_Some:
  assumes "exec_at rx_tag None t = Some (n, c)"
  shows "\<exists>k. word_at t = Some k \<and> c = [(1, take k t), (2, take k t)]
              \<and> lit_ok True ''=='' (dropWhile is_space (drop k t))"
proof -
  from assms obtain k where k: "word_at t = Some k"
    by (auto simp add: exec_at_def rx_tag_def run_tag_outer
          simp del: run.simps One_nat_def split: option.splits)
  obtain rest k' rest' where rest:
    "run True (cat [star [Sp], Lit ''=='', opt [Ch CHR ''=''], star [Sp]]) (prev_at None t k)
       (drop k t) [(1, take k t), (2, take k t)] =
     (if lit_ok True ''=='' (dropWhile is_space (drop k t)) then rest else [])"
    "rest = (k', [(1, take k t), (2, take k t)]) # rest'"
    using run_tag_tail by blast
  from assms k rest show ?thesis
    by (auto simp add: exec_at_def rx_tag_def run_tag_outer
          simp del: run.simps lit_ok.simps One_nat_def split: if_splits)
qed

lemma exec_tag_hit:
  assumes "word_at t = Some k" and "lit_ok True ''=='' (dropWhile is_space (drop k t))"
  shows "\<exists>n. exec_at rx_tag None t = Some (n, [(1, take k t), (2, take k t)])"
proof -
  obtain rest k' rest' where rest:
    "run True (cat [star [Sp], Lit ''=='', opt [Ch CHR ''=''], star [Sp]]) (prev_at None t k)
       (drop k t) [(1, take k t), (2, take k t)] =
     (if lit_ok True ''=='' (dropWhile is_space (drop k t)) then rest else [])"
    "rest = (k', [(1, take k t), (2, take k t)]) # rest'"
    using run_tag_tail by blast
  from assms rest show ?thesis
    by (auto simp add: exec_at_def rx_tag_def run_tag_outer
          simp del: run.simps lit_ok.simps One_nat_def)
qed

lemma not_word:
  assumes "y = 58 \<or> y = 61 \<or> is_space y"
  shows "\<not> is_word y"
  using assms by (auto simp add: char_defs)

lemma exec_name_start_Some:
  assumes "exec_at rx_name_start None t \<noteq> None"
  shows "word_at t = Some 4 \<and> (\<exists>y. next_of (drop 4 t) = Some y \<and> \<not> is_word y)"
proof -
  have four: "Suc (Suc (Suc (Suc 0))) = 4"
    by simp
  from assms have l: "lit_ok True ''Name'' t"
    and "\<exists>y ys. drop 4 t = y # ys \<and> cls_ok True [Ch CHR '':'', Sp] y"
    by (auto simp add: exec_at_def rx_name_start_def four
          simp del: lit_ok.simps split: if_splits list.splits)
  then obtain y ys where y: "drop 4 t = y # ys" and "cls_ok True [Ch CHR '':'', Sp] y"
    by blast
  moreover have "atom_ok True (Ch CHR '':'') y = (y = 58)"
    by (auto simp add: upper_def is_lower_def in_range_def split: if_splits)
  ultimately have "y = 58 \<or> is_space y"
    by (auto simp add: cls_ok_def simp del: atom_ok.simps(1))
  then have "\<not> is_word y"
    using not_word by blast
  with l y show ?thesis
    by (simp add: word_at_def next_of_def)
qed

lemma next_after: "dropWhile P u = a # r \<Longrightarrow> \<exists>y. next_of u = Some y \<and> (P y \<or> y = a)"
  by (cases u) (auto simp add: next_of_def split: if_splits)

lemma exec_tag_next:
  assumes "exec_at rx_tag None t \<noteq> None"
  shows "\<exists>k y. word_at t = Some k \<and> next_of (drop k t) = Some y \<and> \<not> is_word y"
proof -
  from assms obtain n c where "exec_at rx_tag None t = Some (n, c)"
    by auto
  from exec_tag_Some [OF this] obtain k where k: "word_at t = Some k"
    and "lit_ok True ''=='' (dropWhile is_space (drop k t))"
    by blast
  then obtain r where "dropWhile is_space (drop k t) = 61 # 61 # r"
    by (auto simp add: lit_eqeq)
  from next_after [OF this] obtain y where "next_of (drop k t) = Some y" and "is_space y \<or> y = 61"
    by blast
  with k not_word [of y] show ?thesis
    by blast
qed

lemma trim_decomp:
  "\<exists>w1 w2. s = w1 @ trim s @ w2 \<and> list_all is_space w1 \<and> list_all is_space w2"
proof -
  let ?d = "dropWhile is_space s"
  have "rev (dropWhile is_space (rev ?d)) @ rev (takeWhile is_space (rev ?d))
        = rev (takeWhile is_space (rev ?d) @ dropWhile is_space (rev ?d))"
    by (simp only: rev_append)
  also have "\<dots> = rev (rev ?d)"
    by (simp only: takeWhile_dropWhile_id)
  finally have d: "?d = trim s @ rev (takeWhile is_space (rev ?d))"
    by (simp add: trim_def)
  have "s = takeWhile is_space s @ ?d"
    by simp
  with d have "s = takeWhile is_space s @ trim s @ rev (takeWhile is_space (rev ?d))"
    by simp
  moreover have "list_all is_space (takeWhile is_space s)"
    and "list_all is_space (rev (takeWhile is_space (rev ?d)))"
    by (auto simp add: list_all_iff dest: set_takeWhileD)
  ultimately show ?thesis
    by blast
qed

lemma keyword_in_trim:
  assumes k: "word_at (trim s) = Some k" and y: "next_of (drop k (trim s)) = Some y"
    and nw: "\<not> is_word y"
  shows "search rx_keyword None s \<noteq> None"
proof -
  obtain w1 w2 where s: "s = w1 @ trim s @ w2" and w1: "list_all is_space w1"
    using trim_decomp by blast
  from word_atD [OF k] obtain g r where t: "trim s = g @ r" and g: "length g = k"
    and all: "\<forall>w. word_at (g @ w) = Some k"
    by blast
  from all have "word_at (g @ r @ w2) = Some k"
    by blast
  then have 1: "word_at (trim s @ w2) = Some k"
    using t by simp
  from y t g have "r \<noteq> []" and "next_of r = Some y"
    by (auto simp add: next_of_def)
  then have "next_of (drop k (trim s @ w2)) = Some y"
    using t g by (cases r) (auto simp add: next_of_def)
  with nw have 2: "\<not> word_opt (next_of (drop k (trim s @ w2)))"
    by (simp add: word_opt_def)
  have 3: "\<not> word_opt (prev_at None w1 (length w1))"
  proof (cases "w1 = []")
    case True
    then show ?thesis by (simp add: word_opt_def)
  next
    case False
    with w1 have "is_space (last w1)"
      by (simp add: list_all_iff)
    with False show ?thesis
      using not_word [of "last w1"] by (simp add: prev_at_def word_opt_def)
  qed
  from exec_keyword_hit [OF 1 3 2]
  have "exec_at rx_keyword (prev_at None w1 (length w1)) (trim s @ w2) \<noteq> None" .
  from search_found [OF this] s show ?thesis
    by simp
qed

lemma tag_chunk_unknown:
  assumes "search rx_keyword None s = None"
  shows "tag_chunk (trim s) = \<lparr>role = js ''UNKNOWN'', block = trim s\<rparr>"
proof -
  have "exec_at rx_tag None (trim s) = None"
    using exec_tag_next [of "trim s"] keyword_in_trim [of s] assms by blast
  then have 1: "match_rx rx_tag (trim s) = None"
    by (simp add: match_rx_def rx_tag_def search_Bos del: One_nat_def)
  have "exec_at rx_name_start None (trim s) = None"
    using exec_name_start_Some [of "trim s"] keyword_in_trim [of s] assms by blast
  then have 2: "\<not> test rx_name_start (trim s)"
    by (simp add: test_def rx_name_start_def search_Bos)
  from 1 2 show ?thesis
    by (simp add: tag_chunk_def)
qed

subsection \<open>Splitting the marked text\<close>

lemma marker_indep: "split_from rx_marker q s acc = split_from rx_marker q' s acc"
proof (cases s)
  case Nil
  then show ?thesis by (simp add: split_from.simps)
next
  case (Cons x xs)
  have "prev_at q (y # xs) (4 + n) = prev_at q' (y # xs) (4 + n)" for n y
    by (rule prev_at_pos) simp
  then show ?thesis
    unfolding Cons by (simp add: split_from.simps exec_marker)
qed

lemma marker_miss:
  assumes "x \<noteq> 10 \<or> r = [] \<or> hd r \<noteq> 61"
  shows "exec_at rx_marker q (x # r) = None"
  using assms by (cases r) (auto simp add: exec_marker)

lemma split_step:
  assumes "x \<noteq> 10 \<or> r = [] \<or> hd r \<noteq> 61"
  shows "split_from rx_marker q (x # r) acc = split_from rx_marker q' r (acc @ [x])"
  using marker_miss [OF assms] marker_indep [of "Some x" r "acc @ [x]" q']
  by (simp add: split_from.simps)

lemma split_skip:
  assumes "10 \<notin> set u"
  shows "split_from rx_marker q (u @ v) acc = split_from rx_marker q' v (acc @ u)"
  using assms
proof (induction u arbitrary: q acc)
  case Nil
  then show ?case using marker_indep by simp
next
  case (Cons x u)
  then have "x \<noteq> 10" and "10 \<notin> set u"
    by auto
  then show ?case
    using split_step [of x "u @ v" q acc "Some x"] Cons.IH [of "Some x" "acc @ [x]"]
    by simp
qed

lemma split_marker_hit:
  assumes "g \<noteq> []" and "\<not> is_space (hd g)"
  shows "split_from rx_marker q (js ''\<newline>=== '' @ g @ r) acc = acc # split_from rx_marker q' (g @ r) []"
proof -
  have sp: "is_space 32"
    by (simp add: is_space_def)
  from assms have "takeWhile is_space (g @ r) = []"
    by (cases g) auto
  then have "exec_at rx_marker q (js ''\<newline>=== '' @ g @ r) = Some (5, [])"
    using sp by (simp add: exec_marker)
  then show ?thesis
    using marker_indep [of _ "g @ r" "[]" q']
    by (simp add: split_from.simps)
qed

lemma word_at_Nil: "word_at [] = None"
  by (simp add: word_at_def)

lemma exec_keyword_Nil: "exec_at rx_keyword p [] = None"
  by (simp add: exec_keyword word_at_Nil)

lemma keyword_match:
  assumes "exec_at rx_keyword p s = Some (n, c)"
  shows "n \<noteq> 0" and "shape (group c 1)"
    and "expand marker_of c = js ''\<newline>=== '' @ group c 1 @ js '' ===\<newline>''"
proof -
  from exec_keyword_Some [OF assms] obtain k where k: "word_at s = Some k"
    and c: "c = [(1, take k s)]" and n: "n \<noteq> 0"
    by blast
  from word_atD [OF k] obtain g r where s: "s = g @ r" and g: "length g = k" "g \<noteq> []"
    "list_all plain g" "\<forall>w. word_at (g @ w) = Some k"
    by blast
  from s g(1) have "take k s = g"
    by simp
  with c have gc: "group c 1 = g"
    by (simp add: group_def)
  show "n \<noteq> 0" by (rule n)
  show "shape (group c 1)"
    using g gc by (simp add: shape_def)
  show "expand marker_of c = js ''\<newline>=== '' @ group c 1 @ js '' ===\<newline>''"
    using c by (simp add: group_def)
qed

lemma replaced_eq_head:
  assumes "replace_from rx_keyword marker_of p s = 61 # r"
  shows "\<exists>s'. s = 61 # s' \<and> r = replace_from rx_keyword marker_of (Some 61) s'"
proof (cases s)
  case Nil
  with assms show ?thesis by (simp add: replace_from.simps exec_keyword_Nil)
next
  case (Cons x xs)
  show ?thesis
  proof (cases "exec_at rx_keyword p (x # xs)")
    case None
    then show ?thesis using assms Cons by (auto simp add: replace_from.simps)
  next
    case (Some m)
    obtain n c where m: "m = (n, c)" by (cases m)
    from keyword_match(3) [OF Some [unfolded m]] show ?thesis
      using Cons Some m assms by (simp add: replace_from.simps del: expand.simps)
  qed
qed

lemma replaced_prefix:
  assumes "prefix (js ''==='') (replace_from rx_keyword marker_of p s)"
  shows "prefix (js ''==='') s"
proof -
  from assms obtain r where "replace_from rx_keyword marker_of p s = 61 # 61 # 61 # r"
    by (auto simp add: prefix_def)
  from replaced_eq_head [OF this] obtain s1 where s1: "s = 61 # s1"
    and "replace_from rx_keyword marker_of (Some 61) s1 = 61 # 61 # r"
    by auto
  from replaced_eq_head [OF this(2)] obtain s2 where s2: "s1 = 61 # s2"
    and "replace_from rx_keyword marker_of (Some 61) s2 = 61 # r"
    by auto
  from replaced_eq_head [OF this(2)] obtain s3 where s3: "s2 = 61 # s3"
    by auto
  show ?thesis
    by (simp add: s1 s2 s3)
qed

lemma word_at_eq: "word_at (61 # s) = None"
  by (simp add: word_at_def char_defs)

lemma text_before_eq:
  "text_before rx_keyword p (61 # s) = 61 # text_before rx_keyword (Some 61) s"
  by (simp add: exec_keyword word_at_eq)

lemma text_before_prefix:
  assumes "prefix (js ''==='') s"
  shows "prefix (js ''==='') (text_before rx_keyword p s)"
proof -
  from assms obtain r where "s = 61 # 61 # 61 # r"
    by (auto simp add: prefix_def)
  then show ?thesis
    by (simp add: text_before_eq del: text_before.simps)
qed

lemma split_step_marker:
  assumes "\<not> prefix (js ''\<newline>==='') (x # r)"
  shows "split_from rx_marker q (x # r) acc = split_from rx_marker q' r (acc @ [x])"
proof -
  from assms have "exec_at rx_marker q (x # r) = None"
    by (simp only: exec_marker if_False)
  then show ?thesis
    using marker_indep [of "Some x" r "acc @ [x]" q']
    by (simp add: split_from.simps)
qed

lemma split_marked:
  assumes "\<not> sublist (js ''\<newline>==='') s"
    and "list_all (\<lambda>(g, u). \<not> prefix (js ''==='') u) (occurrences rx_keyword p s)"
  shows "split_from rx_marker q (replace_from rx_keyword marker_of p s) acc =
           (acc @ text_before rx_keyword p s)
           # map (\<lambda>(g, u). g @ js '' ===\<newline>'' @ u) (occurrences rx_keyword p s)"
  using assms
proof (induction "length s" arbitrary: s p q acc rule: less_induct)
  case less
  show ?case
  proof (cases s)
    case Nil
    then show ?thesis
      by (simp add: replace_from.simps split_from.simps exec_keyword_Nil)
  next
    case (Cons x xs)
    show ?thesis
    proof (cases "exec_at rx_keyword p (x # xs)")
      case None
      from less.prems(1) Cons have np: "\<not> prefix (js ''\<newline>==='') (x # xs)"
        and xs: "\<not> sublist (js ''\<newline>==='') xs"
        by (auto simp add: sublist_Cons_right)
      from less.prems(2) Cons None
      have occ: "list_all (\<lambda>(g, u). \<not> prefix (js ''==='') u) (occurrences rx_keyword (Some x) xs)"
        by simp
      have "\<not> prefix (js ''\<newline>==='') (x # replace_from rx_keyword marker_of (Some x) xs)"
      proof
        assume "prefix (js ''\<newline>==='') (x # replace_from rx_keyword marker_of (Some x) xs)"
        then have "x = 10" and "prefix (js ''==='') (replace_from rx_keyword marker_of (Some x) xs)"
          by auto
        from this(1) replaced_prefix [OF this(2)] np show False
          by simp
      qed
      then have "split_from rx_marker q (x # replace_from rx_keyword marker_of (Some x) xs) acc
            = split_from rx_marker (Some x) (replace_from rx_keyword marker_of (Some x) xs)
                (acc @ [x])"
        by (rule split_step_marker)
      also have "\<dots> = ((acc @ [x]) @ text_before rx_keyword (Some x) xs)
            # map (\<lambda>(g, u). g @ js '' ===\<newline>'' @ u) (occurrences rx_keyword (Some x) xs)"
        using Cons xs occ by (intro less.hyps) simp_all
      finally show ?thesis
        using None Cons by (simp add: replace_from.simps)
    next
      case (Some m)
      obtain n c where m: "m = (n, c)" by (cases m)
      note hit = Some [unfolded m]
      let ?g = "group c 1"
      let ?rest = "drop n (x # xs)"
      let ?p = "prev_at p (x # xs) n"
      let ?R = "replace_from rx_keyword marker_of ?p ?rest"
      from keyword_match [OF hit] have n: "n \<noteq> 0" and sh: "shape ?g"
        and ex: "expand marker_of c = js ''\<newline>=== '' @ ?g @ js '' ===\<newline>''"
        by simp_all
      from sh have g: "?g \<noteq> []" and pl: "list_all plain ?g"
        by (simp_all add: shape_def)
      from g pl have nsp: "\<not> is_space (hd ?g)" and nl: "10 \<notin> set ?g"
        by (auto simp add: list_all_iff plain_def)
      have "sublist ?rest (x # xs)"
        by (rule sublist_drop)
      with less.prems(1) Cons have rest: "\<not> sublist (js ''\<newline>==='') ?rest"
        using sublist_order.order_trans by blast
      from less.prems(2) Cons hit n
      have first: "\<not> prefix (js ''==='') (text_before rx_keyword ?p ?rest)"
        and occ: "list_all (\<lambda>(g, u). \<not> prefix (js ''==='') u) (occurrences rx_keyword ?p ?rest)"
        by simp_all
      have len: "length ?rest < length s"
        using n Cons by simp
      have rep: "replace_from rx_keyword marker_of p (x # xs)
                 = js ''\<newline>=== '' @ ?g @ js '' ===\<newline>'' @ ?R"
        using hit n ex by (simp add: replace_from.simps del: expand.simps)
      have nm: "\<not> prefix (js ''\<newline>==='') (10 # ?R)"
      proof
        assume "prefix (js ''\<newline>==='') (10 # ?R)"
        then have "prefix (js ''==='') ?R"
          by simp
        from text_before_prefix [OF replaced_prefix [OF this]] first show False
          by blast
      qed
      have "split_from rx_marker q (js ''\<newline>=== '' @ ?g @ (js '' ===\<newline>'' @ ?R)) acc
            = acc # split_from rx_marker None (?g @ (js '' ===\<newline>'' @ ?R)) []"
        by (rule split_marker_hit [OF g nsp])
      also have "split_from rx_marker None (?g @ (js '' ===\<newline>'' @ ?R)) []
            = split_from rx_marker None (js '' ===\<newline>'' @ ?R) ([] @ ?g)"
        by (rule split_skip [OF nl])
      also have "\<dots> = split_from rx_marker None (10 # ?R) (([] @ ?g) @ js '' ==='')"
        using split_skip [of "js '' ==='' " None "10 # ?R" "[] @ ?g" None] by simp
      also have "\<dots> = split_from rx_marker None ?R ((([] @ ?g) @ js '' ==='') @ [10])"
        using nm by (rule split_step_marker)
      also have "\<dots> = (((([] @ ?g) @ js '' ==='') @ [10]) @ text_before rx_keyword ?p ?rest)
            # map (\<lambda>(g, u). g @ js '' ===\<newline>'' @ u) (occurrences rx_keyword ?p ?rest)"
        using len rest occ by (intro less.hyps) simp_all
      finally show ?thesis
        using hit n Cons rep by simp
    qed
  qed
qed

lemma trim_blank:
  assumes "list_all is_space w"
  shows "trim w = []"
proof -
  from assms have d: "dropWhile is_space w = []"
    by (simp add: list_all_iff)
  show ?thesis
    unfolding trim_def d by simp
qed

lemma trim_keep:
  assumes "x \<noteq> []" and "\<not> is_space (hd x)" and "\<not> is_space (last x)"
  shows "trim (x @ y) = x @ rev (dropWhile is_space (rev y))"
proof -
  from assms(1,2) have 1: "dropWhile is_space (x @ y) = x @ y"
    by (cases x) auto
  from assms(1) obtain b l where x: "x = b @ [l]"
    by (cases x rule: rev_cases) auto
  with assms(3) have "\<not> is_space l"
    by simp
  then have "dropWhile is_space (rev y @ l # rev b) = dropWhile is_space (rev y) @ l # rev b"
    by (rule dropWhile_append3)
  then have "rev (dropWhile is_space (rev (x @ y))) = x @ rev (dropWhile is_space (rev y))"
    unfolding x by simp
  with 1 show ?thesis
    by (simp only: trim_def)
qed

lemma occurrences_shape:
  "(g, u) \<in> set (occurrences rx_keyword p s) \<Longrightarrow> shape g"
proof (induction "length s" arbitrary: s p rule: less_induct)
  case less
  show ?case
  proof (cases s)
    case Nil
    with less.prems show ?thesis
      by (simp add: exec_keyword_Nil)
  next
    case (Cons x xs)
    show ?thesis
    proof (cases "exec_at rx_keyword p (x # xs)")
      case None
      with less.prems Cons have "(g, u) \<in> set (occurrences rx_keyword (Some x) xs)"
        by simp
      with Cons show ?thesis
        by (intro less.hyps [of xs "Some x"]) simp_all
    next
      case (Some m)
      obtain n c where m: "m = (n, c)" by (cases m)
      note hit = Some [unfolded m]
      from keyword_match(1,2) [OF hit] have n: "n \<noteq> 0" and sh: "shape (group c 1)"
        by simp_all
      from less.prems Cons hit n
      consider "g = group c 1"
        | "(g, u) \<in> set (occurrences rx_keyword (prev_at p (x # xs) n) (drop n (x # xs)))"
        by auto
      then show ?thesis
      proof cases
        case 1
        with sh show ?thesis by simp
      next
        case 2
        moreover have "length (drop n (x # xs)) < length s"
          using n Cons by simp
        ultimately show ?thesis
          by (intro less.hyps [of "drop n (x # xs)" "prev_at p (x # xs) n"])
      qed
    qed
  qed
qed

lemma space_values: "is_space 32" "is_space 10" "\<not> is_space 61"
  by (simp_all add: is_space_def)

lemma chunk_role:
  assumes "shape g"
  shows "trim (g @ js '' ===\<newline>'' @ u) \<noteq> []"
    and "role (tag_chunk (trim (g @ js '' ===\<newline>'' @ u))) = toUpperCase g"
proof -
  from assms have g: "g \<noteq> []" and pl: "list_all plain g"
    and w: "\<And>w. word_at (g @ w) = Some (length g)"
    by (simp_all add: shape_def)
  from g pl have "\<not> is_space (hd g)"
    by (auto simp add: list_all_iff plain_def)
  with g have "trim ((g @ js '' ==='') @ (10 # u))
               = (g @ js '' ==='') @ rev (dropWhile is_space (rev (10 # u)))"
    by (intro trim_keep) (simp_all add: space_values)
  then obtain z where t: "trim (g @ js '' ===\<newline>'' @ u) = g @ 32 # 61 # 61 # 61 # z"
    by simp
  show "trim (g @ js '' ===\<newline>'' @ u) \<noteq> []"
    using t g by simp
  have "lit_ok True ''=='' (dropWhile is_space (drop (length g) (g @ 32 # 61 # 61 # 61 # z)))"
    by (simp add: space_values lit_eqeq del: lit_ok.simps)
  from exec_tag_hit [OF w this] obtain n where
    "exec_at rx_tag None (g @ 32 # 61 # 61 # 61 # z) = Some (n, [(1, g), (2, g)])"
    by auto
  then have "match_rx rx_tag (g @ 32 # 61 # 61 # 61 # z) = Some [(1, g), (2, g)]"
    by (simp add: match_rx_def rx_tag_def search_Bos del: One_nat_def)
  then show "role (tag_chunk (trim (g @ js '' ===\<newline>'' @ u))) = toUpperCase g"
    unfolding t by (simp add: tag_chunk_def)
qed

lemma trim_comm:
  "dropWhile P (rev (dropWhile P (rev s))) = rev (dropWhile P (rev (dropWhile P s)))"
proof (cases "dropWhile P s")
  case Nil
  then have "\<forall>x\<in>set s. P x"
    by (simp add: dropWhile_eq_Nil_conv)
  then have a: "dropWhile P (rev s) = []"
    by (simp add: dropWhile_eq_Nil_conv)
  show ?thesis
    unfolding Nil a by simp
next
  case (Cons y ys)
  then have y: "\<not> P y"
    using hd_dropWhile [of P s] by auto
  let ?a = "takeWhile P s"
  have s: "s = ?a @ y # ys"
    using Cons takeWhile_dropWhile_id [of P s] by simp
  have a: "\<forall>x\<in>set ?a. P x"
    by (auto dest: set_takeWhileD)
  have 1: "dropWhile P (rev ys @ [y]) = dropWhile P (rev ys) @ [y]"
    using y by (simp add: dropWhile_append3)
  have "rev s = (rev ys @ [y]) @ rev ?a"
    by (subst s) simp
  then have "dropWhile P (rev s) = (dropWhile P (rev ys) @ [y]) @ rev ?a"
    using y 1 by (simp only: dropWhile_append) simp
  then have "rev (dropWhile P (rev s)) = ?a @ y # rev (dropWhile P (rev ys))"
    by simp
  then have "dropWhile P (rev (dropWhile P (rev s))) = y # rev (dropWhile P (rev ys))"
    using a y by (simp add: dropWhile_append)
  moreover have "rev (dropWhile P (rev (dropWhile P s))) = y # rev (dropWhile P (rev ys))"
    using Cons 1 by simp
  ultimately show ?thesis by simp
qed

lemma trim_after_newline:
  "dropWhile is_space (rev (dropWhile is_space (rev (10 # u)))) = trim u"
proof -
  have "dropWhile is_space (rev (dropWhile is_space (rev (10 # u))))
        = rev (dropWhile is_space (rev (dropWhile is_space (10 # u))))"
    by (rule trim_comm)
  then show ?thesis
    by (simp add: trim_def space_values)
qed

lemma run_tag_tail_exact:
  "\<exists>rest. run True (cat [star [Sp], Lit ''=='', opt [Ch CHR ''=''], star [Sp]]) p
            (32 # 61 # 61 # 61 # z) c
          = (4 + length (takeWhile is_space z), c) # rest"
proof -
  have eq: "cls_ok True [Ch CHR ''=''] 61"
    by (simp add: cls_ok_def)
  have four: "Suc (Suc (Suc (Suc 0))) = 4"
    by simp
  obtain rest where "run True (Seq (opt [Ch CHR ''='']) (star [Sp])) q (61 # z) c
        = (1 + length (takeWhile is_space z), c) # rest" for q
    using eq by (simp add: run_Rep0 cls_Sp del: run.simps(3))
  then show ?thesis
    by (simp add: star_sp_eq run_lit_then space_values lit_eqeq four
          del: run.simps lit_ok.simps One_nat_def)
qed

lemma chunk_tag:
  assumes "shape g"
  shows "tag_chunk (trim (g @ js '' ===\<newline>'' @ u)) = \<lparr>role = toUpperCase g, block = trim u\<rparr>"
proof -
  define z where "z = rev (dropWhile is_space (rev (10 # u)))"
  define n where "n = length g + (4 + length (takeWhile is_space z))"
  from assms have g: "g \<noteq> []" and pl: "list_all plain g"
    and w: "\<And>w. word_at (g @ w) = Some (length g)"
    by (simp_all add: shape_def)
  from g pl have "\<not> is_space (hd g)"
    by (auto simp add: list_all_iff plain_def)
  with g have "trim ((g @ js '' ==='') @ (10 # u))
               = (g @ js '' ==='') @ rev (dropWhile is_space (rev (10 # u)))"
    by (intro trim_keep) (simp_all add: space_values)
  then have t: "trim (g @ js '' ===\<newline>'' @ u) = g @ 32 # 61 # 61 # 61 # z"
    by (simp add: z_def)
  obtain rest where
    "run True (cat [star [Sp], Lit ''=='', opt [Ch CHR ''=''], star [Sp]]) (prev_at None (g @ 32 # 61 # 61 # 61 # z) (length g))
       (32 # 61 # 61 # 61 # z) [(1, g), (2, g)]
     = (4 + length (takeWhile is_space z), [(1, g), (2, g)]) # rest"
    using run_tag_tail_exact by blast
  then have "exec_at rx_tag None (g @ 32 # 61 # 61 # 61 # z) = Some (n, [(1, g), (2, g)])"
    using w [of "32 # 61 # 61 # 61 # z"]
    by (simp add: exec_at_def rx_tag_def run_tag_outer n_def
          del: run.simps lit_ok.simps One_nat_def)
  then have s: "search rx_tag None (g @ 32 # 61 # 61 # 61 # z) = Some ([], n, [(1, g), (2, g)])"
    by (simp add: rx_tag_def search_Bos del: One_nat_def)
  have "drop (4 + k) (32 # 61 # 61 # 61 # z) = drop k z" for k
  proof -
    have "4 + k = Suc (Suc (Suc (Suc k)))"
      by simp
    then show ?thesis
      by (simp only: drop_Suc_Cons)
  qed
  then have "drop n (g @ 32 # 61 # 61 # 61 # z) = dropWhile is_space z"
    by (simp add: n_def dropWhile_eq_drop)
  also have "\<dots> = trim u"
    unfolding z_def by (rule trim_after_newline)
  finally have "replace_first rx_tag [] (g @ 32 # 61 # 61 # 61 # z) = trim u"
    using s by (simp add: replace_first_def)
  then show ?thesis
    unfolding t using s by (simp add: tag_chunk_def match_rx_def)
qed

lemma sects_of_chunks:
  assumes "\<And>g u. (g, u) \<in> set occ \<Longrightarrow> shape g"
  shows "map tag_chunk (filter (\<lambda>x. x \<noteq> [])
           (map trim (map (\<lambda>(g, u). g @ js '' ===\<newline>'' @ u) occ)))
         = map (\<lambda>(g, u). \<lparr>role = toUpperCase g, block = trim u\<rparr>) occ"
  using assms
proof (induction occ)
  case Nil
  then show ?case by simp
next
  case (Cons a occ)
  obtain g u where a: "a = (g, u)" by (cases a)
  with Cons.prems have "shape g"
    by (meson list.set_intros(1))
  moreover have "map tag_chunk (filter (\<lambda>x. x \<noteq> [])
           (map trim (map (\<lambda>(g, u). g @ js '' ===\<newline>'' @ u) occ)))
         = map (\<lambda>(g, u). \<lparr>role = toUpperCase g, block = trim u\<rparr>) occ"
    using Cons.prems by (intro Cons.IH) (meson list.set_intros(2))
  ultimately show ?case
    using chunk_role(1) [of g u] chunk_tag [of g u] a by simp
qed

lemma sort_three:
  assumes "map role xs = [js ''NAME'', js ''SIRE'', js ''DAM'']"
  shows "sort_key (\<lambda>a. roleRank (role a)) xs = xs"
proof -
  from assms obtain a b c where xs: "xs = [a, b, c]" and r: "role a = js ''NAME''"
    "role b = js ''SIRE''" "role c = js ''DAM''"
    by auto
  have "roleRank (role a) = 0" "roleRank (role b) = 1" "roleRank (role c) = 2"
    using r by (simp_all add: roleRank_def)
  then show ?thesis
    using xs by simp
qed

subsection \<open>The variety pattern at the end of a block\<close>

lemma padded_step:
  assumes "padded p s"
  shows "padded (prev_at p s k) (drop k s)"
proof (cases "drop k s = []")
  case False
  with assms show ?thesis
    by (auto simp add: padded_def split: if_splits)
next
  case True
  show ?thesis
  proof (cases "s = []")
    case True
    with assms show ?thesis by (simp add: padded_def prev_at_def)
  next
    case False
    with True have "take k s = s"
      by simp
    with assms False True show ?thesis
      using not_word [of 32] by (simp add: padded_def prev_at_def word_opt_def space_values)
  qed
qed

lemma run_Seq_cong:
  assumes "\<And>k c'. run ic b (prev_at p s k) (drop k s) c' = run ic b' (prev_at p s k) (drop k s) c'"
  shows "run ic (Seq a b) p s c = run ic (Seq a b') p s c"
  using assms by simp

lemma alts_snoc_Eos:
  assumes "s \<noteq> []" and "ls \<noteq> []"
  shows "run ic (alts (ls @ [Eos])) p s c = run ic (alts ls) p s c"
  using assms(2)
proof (induction ls rule: alts.induct)
  case 1
  then show ?case by simp
next
  case (2 r)
  then show ?case using assms(1) by simp
next
  case (3 r v va)
  then show ?case by simp
qed

lemma boundary_ahead:
  assumes "padded p s" and "ls \<noteq> []"
  shows "run ic (Seq WordB (Look (alts (ls @ [Eos])))) p s c
         = run ic (Seq WordB (Look (alts ls))) p s c"
proof (cases "s = []")
  case True
  with assms(1) have "run ic WordB p s c = []"
    by (simp add: padded_def next_of_def word_opt_def)
  then show ?thesis by simp
next
  case False
  then have "run ic (alts (ls @ [Eos])) q s c' = run ic (alts ls) q s c'" for q c'
    using assms(2) by (rule alts_snoc_Eos)
  then show ?thesis by simp
qed

lemma variety_exec:
  assumes "padded p s"
  shows "exec_at rx_variety p s = exec_at rx_variety_labels p s"
proof -
  have l: "labels \<noteq> []"
    by (simp add: labels_def)
  have ahead: "run True (Seq WordB (Look (alts (labels @ [Eos])))) q t c'
        = run True (Seq WordB (Look (alts labels))) q t c'" if "padded q t" for q t c'
    using that l by (rule boundary_ahead)
  have "run True (fst rx_variety) p s [] = run True (fst rx_variety_labels) p s []"
    unfolding rx_variety_def rx_variety_labels_def variety_rx_def fst_conv cat.simps
    by (rule run_Seq_cong, rule run_Seq_cong, rule run_Seq_cong, rule ahead,
        (rule padded_step)+, rule assms)
  then show ?thesis
    by (simp add: exec_at_def rx_variety_def rx_variety_labels_def variety_rx_def
          del: run.simps One_nat_def)
qed

lemma variety_search:
  assumes "padded p s"
  shows "search rx_variety p s = search rx_variety_labels p s"
  using assms
proof (induction s arbitrary: p)
  case Nil
  then show ?case
    by (simp add: variety_exec)
next
  case (Cons x xs)
  have "padded (Some x) xs"
    using padded_step [OF Cons.prems, of 1] by (simp add: prev_at_def)
  from Cons.IH [OF this] variety_exec [OF Cons.prems] show ?case
    by (simp split: option.splits)
qed

lemma variety_grab: "grab (b @ [32]) rx_variety = grab (b @ [32]) rx_variety_labels"
proof -
  have "padded None (b @ [32])"
    by (simp add: padded_def)
  from variety_search [OF this] show ?thesis
    by (simp add: grab_def match_rx_def)
qed

subsection \<open>The Reg, GC and Born patterns of the normalizer\<close>

lemma letter_word:
  assumes "atom_ok True (Ch d) x" and "65 \<le> upper (of_char d)" and "upper (of_char d) \<le> 90"
  shows "is_word x"
  using assms upper_letter(1) [of x "upper (of_char d)"] by (simp add: atom_ok_ci del: atom_ok.simps)

lemma boundary_then_lit:
  assumes "word_opt p" and "65 \<le> upper (of_char d)" and "upper (of_char d) \<le> 90"
  shows "run True (Seq WordB (Seq (Lit (d # l)) R)) p s c = []"
proof (cases s)
  case Nil
  then show ?thesis by simp
next
  case (Cons x xs)
  show ?thesis
  proof (cases "is_word x")
    case True
    with assms(1) Cons show ?thesis
      by (simp add: next_of_def word_opt_def)
  next
    case False
    with letter_word [OF _ assms(2,3), of x] have "\<not> atom_ok True (Ch d) x"
      by blast
    with Cons show ?thesis
      by (simp del: atom_ok.simps)
  qed
qed

lemma boundary_then_cls:
  assumes "word_opt p" and "\<And>x. cls_ok ic A x \<Longrightarrow> is_word x"
  shows "run ic (Seq WordB (Seq (Cls A) R)) p s c = []"
proof (cases s)
  case Nil
  then show ?thesis by simp
next
  case (Cons x xs)
  show ?thesis
  proof (cases "is_word x")
    case True
    with assms(1) Cons show ?thesis
      by (simp add: next_of_def word_opt_def)
  next
    case False
    with assms(2) have "\<not> cls_ok ic A x"
      by blast
    with Cons show ?thesis
      by simp
  qed
qed

lemma reg_needs_boundary:
  assumes "word_opt p"
  shows "exec_at rx_reg_fix p s = None"
  using boundary_then_lit [OF assms, of "CHR ''R''"]
  by (simp add: exec_at_def rx_reg_fix_def char_defs del: run.simps)

lemma gc_needs_boundary:
  assumes "word_opt p"
  shows "exec_at rx_gc_fix p s = None"
proof -
  have "is_word x" if "cls_ok False [Ch CHR ''G'', Ch CHR ''g''] x" for x
    using that by (auto simp add: cls_ok_def char_defs)
  from boundary_then_cls [OF assms this] show ?thesis
    by (simp add: exec_at_def rx_gc_fix_def del: run.simps)
qed

lemma born_needs_boundary:
  assumes "word_opt p"
  shows "exec_at rx_born_fix p s = None"
  using boundary_then_lit [OF assms, of "CHR ''B''"]
  by (simp add: exec_at_def rx_born_fix_def char_defs del: run.simps)

lemma reg_hit:
  assumes "\<not> word_opt p"
  shows "exec_at rx_reg_fix p (js ''Reg'' @ v)
         = Some (3 + length (takeWhile (cls_ok True [Ch CHR ''.'', Sp, Ch CHR ''#'', Ch CHR '':'']) v), [])"
proof -
  have w: "is_word 82"
    by (simp add: char_defs)
  have c: "cls_ok True [Ch CHR ''g'', Ch CHR ''q''] 103"
    by (simp add: cls_ok_def)
  have three: "Suc (Suc (Suc 0)) = 3"
    by simp
  show ?thesis
    using assms w c
    by (simp add: exec_at_def rx_reg_fix_def run_Rep0 next_of_def word_opt_def three
          del: run.simps(3))
qed

lemma gc_hit:
  assumes "\<not> word_opt p"
  shows "exec_at rx_gc_fix p (js ''GC'' @ v)
         = Some (2 + length (takeWhile (cls_ok False [Ch CHR ''.'', Sp, Ch CHR ''#'', Ch CHR '':'']) v), [])"
proof -
  have w: "is_word 71"
    by (simp add: char_defs)
  have c: "cls_ok False [Ch CHR ''G'', Ch CHR ''g''] 71" "cls_ok False [Ch CHR ''C'', Ch CHR ''c''] 67"
    by (simp_all add: cls_ok_def)
  show ?thesis
    using assms w c
    by (simp add: exec_at_def rx_gc_fix_def run_Rep0 next_of_def word_opt_def prev_at_def
          del: run.simps(3))
qed

lemma reg_first:
  "prefix (js ''Reg # '') (reg_rule (js ''Reg'' @ v))"
proof -
  have "\<not> word_opt None"
    by (simp add: word_opt_def)
  from reg_hit [OF this, of v] show ?thesis
    by (simp add: reg_rule_def replace_all_def replace_from.simps)
qed

lemma gc_first:
  "prefix (js ''GC # '') (gc_rule (js ''GC'' @ v))"
proof -
  have "\<not> word_opt None"
    by (simp add: word_opt_def)
  from gc_hit [OF this, of v] show ?thesis
    by (simp add: gc_rule_def replace_all_def replace_from.simps)
qed

lemma reg_miss_0: "exec_at rx_reg_fix p (x # 82 # w) = None"
  by (simp add: exec_at_def rx_reg_fix_def char_defs del: run.simps(3))

lemma gc_miss_0: "exec_at rx_gc_fix p (x # 71 # w) = None"
  by (simp add: exec_at_def rx_gc_fix_def cls_ok_def prev_at_def del: run.simps(3))

lemma born_miss_0: "exec_at rx_born_fix p (x # 66 # w) = None"
  by (simp add: exec_at_def rx_born_fix_def char_defs del: run.simps(3))

lemma word_values: "is_word 82" "is_word 101" "is_word 103" "is_word 71" "is_word 67"
  "is_word 66" "is_word 111" "is_word 114" "is_word 110"
  by (simp_all add: char_defs)

lemma reg_inside:
  assumes "is_word x"
  shows "prefix (x # js ''Reg'') (reg_rule (x # js ''Reg'' @ v))"
  using assms
  by (simp add: reg_rule_def replace_all_def replace_from.simps reg_miss_0 reg_needs_boundary
        word_opt_def word_values)

lemma gc_inside:
  assumes "is_word x"
  shows "prefix (x # js ''GC'') (gc_rule (x # js ''GC'' @ v))"
  using assms
  by (simp add: gc_rule_def replace_all_def replace_from.simps gc_miss_0 gc_needs_boundary
        word_opt_def word_values)

lemma born_inside:
  assumes "is_word x"
  shows "prefix (x # js ''Born'') (born_rule (x # js ''Born'' @ v))"
  using assms
  by (simp add: born_rule_def replace_all_def replace_from.simps born_miss_0 born_needs_boundary
        word_opt_def word_values)

lemma born_sep_not_date:
  assumes "cls_ok True [Sp, Ch CHR '':''] x"
  shows "\<not> cls_ok True date_chars x"
proof -
  from assms have "is_space x \<or> x = 58"
    by (auto simp add: cls_ok_def upper_def is_lower_def in_range_def split: if_splits)
  then show ?thesis
  proof
    assume "is_space x"
    then have "x < 45 \<or> 122 < x"
      by (auto simp add: is_space_def)
    then show ?thesis
      by (auto simp add: cls_ok_def date_chars_def char_defs)
  next
    assume "x = 58"
    then show ?thesis
      by (simp add: cls_ok_def date_chars_def char_defs)
  qed
qed

lemma run_plus:
  "run ic (Cap n (plus A)) p s c \<noteq> [] \<longleftrightarrow> (\<exists>x w. s = x # w \<and> cls_ok ic A x)"
  by (cases s) (auto simp add: Let_def)

lemma star_then_plus:
  assumes "\<And>x. cls_ok ic A x \<Longrightarrow> \<not> cls_ok ic B x"
  shows "run ic (Seq (star A) (Cap n (plus B))) p s c \<noteq> []
         \<longleftrightarrow> (\<exists>x w. dropWhile (cls_ok ic A) s = x # w \<and> cls_ok ic B x)"
proof -
  have "run ic (Cap n (plus B)) (prev_at p s k) (drop k s) c = []"
    if "k < length (takeWhile (cls_ok ic A) s)" for k
  proof -
    from takeWhile_holds [OF that] have a: "cls_ok ic A (s ! k)" and k: "k < length s"
      by simp_all
    from k have "drop k s = s ! k # drop (Suc k) s"
      by (simp add: Cons_nth_drop_Suc)
    with assms [OF a] run_plus [of ic n B "prev_at p s k" "drop k s" c] show ?thesis
      by auto
  qed
  from star_then [of ic A s "Cap n (plus B)" p c, OF this]
  have "run ic (Seq (star A) (Cap n (plus B))) p s c \<noteq> []
        \<longleftrightarrow> run ic (Cap n (plus B)) (prev_at p s (length (takeWhile (cls_ok ic A) s)))
              (drop (length (takeWhile (cls_ok ic A) s)) s) c \<noteq> []"
    by simp
  then show ?thesis
    by (simp only: run_plus dropWhile_eq_drop)
qed

lemma run_boundary_then:
  "run ic (Seq WordB R) p s c = (if word_opt p \<noteq> word_opt (next_of s) then run ic R p s c else [])"
  by simp

lemma born_hit:
  "exec_at rx_born_fix p (js ''Born'' @ v) \<noteq> None
   \<longleftrightarrow> \<not> word_opt p
       \<and> (\<exists>x w. dropWhile (cls_ok True [Sp, Ch CHR '':'']) v = x # w \<and> cls_ok True date_chars x)"
proof (cases "word_opt p")
  case True
  then show ?thesis
    by (simp add: born_needs_boundary)
next
  case False
  let ?R = "Seq (star [Sp, Ch CHR '':'']) (Cap 1 (plus date_chars))"
  define q where "q = prev_at p (js ''Born'' @ v) (length ''Born'')"
  have l: "lit_ok True ''Born'' (js ''Born'' @ v)"
    by simp
  have d: "drop (length ''Born'') (js ''Born'' @ v) = v"
    by simp
  have "word_opt (next_of (js ''Born'' @ v))"
    by (simp add: next_of_def word_opt_def word_values)
  with False have b: "word_opt p \<noteq> word_opt (next_of (js ''Born'' @ v))"
    by simp
  have "run True (fst rx_born_fix) p (js ''Born'' @ v) []
        = map (\<lambda>(k', c''). (length ''Born'' + k', c''))
            (run True ?R q (drop (length ''Born'') (js ''Born'' @ v)) [])"
    unfolding q_def
    by (simp only: rx_born_fix_def fst_conv cat.simps run_boundary_then run_lit_then b l if_True not_False_eq_True)
  then have r: "run True (fst rx_born_fix) p (js ''Born'' @ v) [] \<noteq> []
                \<longleftrightarrow> run True ?R q v [] \<noteq> []"
    by (simp only: d map_is_Nil_conv)
  have "exec_at rx_born_fix p (js ''Born'' @ v) \<noteq> None
        \<longleftrightarrow> run True (fst rx_born_fix) p (js ''Born'' @ v) [] \<noteq> []"
    by (simp add: exec_at_def rx_born_fix_def del: run.simps One_nat_def js_Cons split: list.splits)
  with r False show ?thesis
    using star_then_plus [of True "[Sp, Ch CHR '':'']" date_chars 1 q v "[]", OF born_sep_not_date]
    by (simp del: run.simps One_nat_def)
qed

section \<open>The field extractor on the card of the specification\<close>

text \<open>
  C1. The extractor on the block
  \<^verbatim>\<open>" Name: Thumper Variety: Dutch Weight: 4 lb 2 oz Legs: 4 Born: 11-10-2024 "\<close>: the
  record it returns has Variety Dutch, Weight 4 lb 2 oz, Legs 4, Born 11/10/2024 and empty
  Ear, Reg and GC, but its Name is \<^verbatim>\<open>Thumper Variety\<close>: the name class contains the space
  and the letters of the next label, and the name pattern has no cut-off at a label.
\<close>

theorem parseSection_thumper:
  "parseSection
     \<lparr>role = js ''NAME'',
      block = js '' Name: Thumper Variety: Dutch Weight: 4 lb 2 oz Legs: 4 Born: 11-10-2024 ''\<rparr>
   = \<lparr>Role = js ''NAME'', Name = js ''Thumper Variety'', Ear = [], Reg = [], GC = [],
       Variety = js ''Dutch'', Weight = js ''4 lb 2 oz'', Legs = js ''4'',
       Born = js ''11/10/2024''\<rparr>"
  by code_simp

text \<open>
  C2. The name inference of a SIRE or DAM block: the block is padded with a leading space
  before it is matched, and the inference pattern is anchored at the start, so it never
  matches: the name of every record is what the name pattern alone yields. The SIRE block
  \<^verbatim>\<open>" Sire: Big Chief Ear # AB-12 "\<close> gets an empty name, with or without the spaces around
  it.
\<close>

theorem name_inference_never_matches:
  "Name (parseSection sec) =
     grab (js '' '' @ replace_all rx_newline [T '' ''] (block sec) @ js '' '') rx_name
   \<and> Name (parseSection \<lparr>role = js ''SIRE'', block = js '' Sire: Big Chief Ear # AB-12 ''\<rparr>) = []
   \<and> Name (parseSection \<lparr>role = js ''SIRE'', block = js ''Sire: Big Chief Ear # AB-12''\<rparr>) = []"
proof -
  have a: "Name (parseSection sec) =
     grab (js '' '' @ replace_all rx_newline [T '' ''] (block sec) @ js '' '') rx_name"
    by (simp add: parseSection_def Let_def inferredName_def grab_infer_padded)
  have b: "Name (parseSection \<lparr>role = js ''SIRE'', block = js '' Sire: Big Chief Ear # AB-12 ''\<rparr>)
           = []"
    by code_simp
  have c: "Name (parseSection \<lparr>role = js ''SIRE'', block = js ''Sire: Big Chief Ear # AB-12''\<rparr>)
           = []"
    by code_simp
  from a b c show ?thesis by blast
qed

text \<open>
  C3. The date normalizer on a date with a year of three digits: the pattern accepts two
  to four digits for the year and only a year of two digits is expanded, so \<^verbatim>\<open>1/2/123\<close>
  comes back as \<^verbatim>\<open>01/02/123\<close>, which is neither MM/DD/YYYY nor the token it was given. The
  extractor hands such a token over from a block \<^verbatim>\<open>Born: 1/2/123\<close>.
\<close>

theorem normalizeDate_year_of_three_digits:
  "normalizeDate (js ''1/2/123'') = js ''01/02/123''
   \<and> Born (parseSection \<lparr>role = js ''NAME'', block = js ''Born: 1/2/123''\<rparr>) = js ''01/02/123''"
  by code_simp

text \<open>
  C4. The normalizer applied twice: the rule for \<^verbatim>\<open>ariety\<close> matches inside its own
  replacement \<^verbatim>\<open>Variety\<close>, so the correctly read label \<^verbatim>\<open>Variety\<close> becomes \<^verbatim>\<open>VVariety\<close>, and
  normalizing that text again gives \<^verbatim>\<open>VVVariety\<close>.
\<close>

theorem preClean_twice_on_Variety:
  "preClean (js ''Variety'') = js ''VVariety''
   \<and> preClean (preClean (js ''Variety'')) = js ''VVVariety''"
  by code_simp

text \<open>
  C5. The variety of a block in which no label follows it. The block is padded with a
  trailing space before it is matched, and after that space, at the end of the input, there
  is no word boundary, so the branch \<^verbatim>\<open>$\<close> of the lookahead never succeeds: the variety of
  every section is what the pattern without that branch yields. The variety \<^verbatim>\<open>Dutch\<close> of the
  block \<^verbatim>\<open>Variety: Dutch\<close> is lost; with a label after it, the variety is captured.
\<close>

theorem variety_lost_at_end_of_block:
  "Variety (parseSection sec) =
     grab (js '' '' @ replace_all rx_newline [T '' ''] (block sec) @ js '' '') rx_variety_labels
   \<and> Variety (parseSection \<lparr>role = js ''NAME'', block = js ''Variety: Dutch''\<rparr>) = []
   \<and> Variety (parseSection \<lparr>role = js ''NAME'', block = js ''Variety: Dutch Legs: 4''\<rparr>)
     = js ''Dutch''"
proof -
  have a: "Variety (parseSection sec) =
     grab (js '' '' @ replace_all rx_newline [T '' ''] (block sec) @ js '' '') rx_variety_labels"
    using variety_grab [of "32 # replace_all rx_newline [T '' ''] (block sec)"]
    by (simp add: parseSection_def Let_def)
  have b: "Variety (parseSection \<lparr>role = js ''NAME'', block = js ''Variety: Dutch''\<rparr>) = []
           \<and> Variety (parseSection \<lparr>role = js ''NAME'', block = js ''Variety: Dutch Legs: 4''\<rparr>)
             = js ''Dutch''"
    by code_simp
  from a b show ?thesis by blast
qed

section \<open>The driver and the worker\<close>

text \<open>
  C6, as the claim states it, at a run whose \<^verbatim>\<open>recognize\<close> fails: the run ends with the
  failure and has made no call of \<^verbatim>\<open>terminate\<close>.
\<close>

theorem runOCR_no_terminate_after_failure:
  "runOCR \<lparr>createWorker = True, loadLanguage = True, initialize = True, recognize = None,
           terminate = True\<rparr>
   = ([CreateWorker, LoadLanguage, Initialize, Recognize], Inl EngineFailure)
   \<and> Terminate \<notin> set (fst (runOCR \<lparr>createWorker = True, loadLanguage = True, initialize = True,
                                    recognize = None, terminate = True\<rparr>))"
  by (simp add: runOCR_def)

text \<open>
  C6, amended. When the worker has been created and initialized, \<^verbatim>\<open>terminate\<close> is called
  exactly when \<^verbatim>\<open>recognize\<close> succeeds, right after it. When \<^verbatim>\<open>recognize\<close> fails, the
  failure reaches the host and \<^verbatim>\<open>terminate\<close> is not called.
\<close>

theorem runOCR_terminate_iff_recognized:
  assumes "createWorker eng" and "loadLanguage eng" and "initialize eng"
  shows "(Terminate \<in> set (fst (runOCR eng))) = (recognize eng \<noteq> None)
         \<and> (case recognize eng of
              None \<Rightarrow>
                runOCR eng = ([CreateWorker, LoadLanguage, Initialize, Recognize], Inl EngineFailure)
            | Some text \<Rightarrow>
                take 5 (fst (runOCR eng))
                = [CreateWorker, LoadLanguage, Initialize, Recognize, Terminate])"
  using assms by (auto simp add: runOCR_def Let_def split: option.splits sum.splits)

theorem runOCR_terminate_iff_recognized_witness:
  "Terminate \<in> set (fst (runOCR \<lparr>createWorker = True, loadLanguage = True, initialize = True,
                                  recognize = Some (js ''Name: Thumper''), terminate = True\<rparr>))
   \<and> take 5 (fst (runOCR \<lparr>createWorker = True, loadLanguage = True, initialize = True,
                           recognize = Some (js ''Name: Thumper''), terminate = True\<rparr>))
     = [CreateWorker, LoadLanguage, Initialize, Recognize, Terminate]"
  using runOCR_terminate_iff_recognized
          [of "\<lparr>createWorker = True, loadLanguage = True, initialize = True,
                recognize = Some (js ''Name: Thumper''), terminate = True\<rparr>"]
  by simp

section \<open>The tabular renderer\<close>

text \<open>
  C9. The tabular renderer on a list with at least one record: the first cell of a row is
  the number \<^verbatim>\<open>i+1\<close>, the safety filter calls \<^verbatim>\<open>replace\<close> on it, and a number has no such
  method: the renderer throws a TypeError and there is no output to split.
\<close>

theorem renderTSV_throws:
  "renderTSV (r # rs) = Inl TypeError"
  by (simp add: renderTSV_def tsv_row_def cells_def)

section \<open>The label rules of the normalizer\<close>

text \<open>
  C10, as the claim states it, at the texts \<^verbatim>\<open>Regal\<close> and \<^verbatim>\<open>GCx\<close>: the claim sets the Ear rule
  apart from the Reg and GC rules by the delimiter that has to follow, but the Reg and GC
  rules require none either. The patterns end with \<^verbatim>\<open>[\.\s#:]*\<close>, which matches nothing as
  well, so \<^verbatim>\<open>Reg\<close> and \<^verbatim>\<open>GC\<close> are rewritten at the start of a longer word too, by the rule
  alone and by the whole normalizer.
\<close>

theorem reg_gc_rules_without_delimiter_counterexample:
  "reg_rule (js ''Regal'') = js ''Reg # al''
   \<and> gc_rule (js ''GCx'') = js ''GC # x''
   \<and> preClean (js ''Regal'') = js ''Reg # al''
   \<and> preClean (js ''GCx'') = js ''GC # x''"
  by code_simp

text \<open>
  C10, amended. The Ear rule rewrites every \<^verbatim>\<open>ear\<close> and \<^verbatim>\<open>Ear\<close> of its input to \<^verbatim>\<open>Ear # \<close>,
  whatever stands before it and whatever follows it: the rule applied to a text \<open>u\<close>, then
  \<^verbatim>\<open>ear\<close>, then a text \<open>v\<close> is the rule applied to \<open>u\<close>, then \<^verbatim>\<open>Ear # \<close>, then the rule applied
  to \<open>v\<close> without the separators (white space, \<^verbatim>\<open>#\<close>, colon) it starts with. So the normalizer
  turns \<^verbatim>\<open>Heart\<close> into \<^verbatim>\<open>HEar # t\<close>.

  The Reg, GC and Born rules differ from it by the leading word boundary only: none of their
  patterns matches right after a word character, at any position of any text, and each rule
  leaves its word alone when a word character stands before it. A delimiter after the word
  is required by the Reg and GC rules as little as by the Ear rule: a text that starts with
  \<^verbatim>\<open>Reg\<close> or \<^verbatim>\<open>GC\<close> is rewritten to one that starts with \<^verbatim>\<open>Reg # \<close> or \<^verbatim>\<open>GC # \<close>, whatever
  follows. The Born rule requires a date character after the word and its separators
  (white space and colons): its pattern matches at \<^verbatim>\<open>Born\<close> exactly when no word character
  stands before it and the text after the separators starts with a date character.
\<close>

theorem ear_rule_rewrites_every_ear:
  "ear_rule (u @ js ''ear'' @ v) = ear_rule u @ js ''Ear # '' @ ear_rule (dropWhile ear_sep v)
   \<and> ear_rule (u @ js ''Ear'' @ v) = ear_rule u @ js ''Ear # '' @ ear_rule (dropWhile ear_sep v)
   \<and> preClean (js ''Heart'') = js ''HEar # t''
   \<and> (word_opt p \<longrightarrow> exec_at rx_reg_fix p s = None \<and> exec_at rx_gc_fix p s = None
         \<and> exec_at rx_born_fix p s = None)
   \<and> (is_word x \<longrightarrow> prefix (x # js ''Reg'') (reg_rule (x # js ''Reg'' @ v))
         \<and> prefix (x # js ''GC'') (gc_rule (x # js ''GC'' @ v))
         \<and> prefix (x # js ''Born'') (born_rule (x # js ''Born'' @ v)))
   \<and> reg_rule (js ''xReg:'') = js ''xReg:''
   \<and> gc_rule (js ''xGC:'') = js ''xGC:''
   \<and> born_rule (js ''xBorn: 1'') = js ''xBorn: 1''
   \<and> prefix (js ''Reg # '') (reg_rule (js ''Reg'' @ v))
   \<and> prefix (js ''GC # '') (gc_rule (js ''GC'' @ v))
   \<and> (exec_at rx_born_fix p (js ''Born'' @ v) \<noteq> None
        \<longleftrightarrow> \<not> word_opt p
            \<and> (\<exists>y w. dropWhile (cls_ok True [Sp, Ch CHR '':'']) v = y # w
                   \<and> cls_ok True date_chars y))
   \<and> born_rule (js ''Born'') = js ''Born''
   \<and> born_rule (js ''Born x'') = js ''Born x''
   \<and> born_rule (js ''Born 1'') = js ''Born: 1''"
proof -
  have a: "ear_rule (u @ js ''ear'' @ v)
           = ear_rule u @ js ''Ear # '' @ ear_rule (dropWhile ear_sep v)"
    using ear_from_split [of 101 "[T ''Ear # '']" u v]
    by (simp add: ear_rule_def replace_all_def)
  have b: "ear_rule (u @ js ''Ear'' @ v)
           = ear_rule u @ js ''Ear # '' @ ear_rule (dropWhile ear_sep v)"
    using ear_from_split [of 69 "[T ''Ear # '']" u v]
    by (simp add: ear_rule_def replace_all_def)
  have c: "preClean (js ''Heart'') = js ''HEar # t''"
    by code_simp
  have d: "reg_rule (js ''xReg:'') = js ''xReg:'' \<and> gc_rule (js ''xGC:'') = js ''xGC:''
           \<and> born_rule (js ''xBorn: 1'') = js ''xBorn: 1''"
    by code_simp
  have e: "born_rule (js ''Born'') = js ''Born'' \<and> born_rule (js ''Born x'') = js ''Born x''
           \<and> born_rule (js ''Born 1'') = js ''Born: 1''"
    by code_simp
  have f: "word_opt p \<longrightarrow> exec_at rx_reg_fix p s = None \<and> exec_at rx_gc_fix p s = None
             \<and> exec_at rx_born_fix p s = None"
    using reg_needs_boundary gc_needs_boundary born_needs_boundary by blast
  have g: "is_word x \<longrightarrow> prefix (x # js ''Reg'') (reg_rule (x # js ''Reg'' @ v))
             \<and> prefix (x # js ''GC'') (gc_rule (x # js ''GC'' @ v))
             \<and> prefix (x # js ''Born'') (born_rule (x # js ''Born'' @ v))"
    using reg_inside gc_inside born_inside by blast
  note h = reg_first [of v] gc_first [of v] born_hit [of p v]
  from a b c d e f g h show ?thesis
    by blast
qed

theorem ear_rule_rewrites_every_ear_witness:
  "ear_rule (js ''Bear: x'') = js ''BEar # x''
   \<and> exec_at rx_reg_fix (Some 120) (js ''Reg:'') = None
   \<and> prefix (js ''xReg'') (reg_rule (js ''xReg: x''))"
proof -
  note t = ear_rule_rewrites_every_ear
    [where u = "js ''B''" and v = "js '': x''" and p = "Some 120" and s = "js ''Reg:''"
       and x = 120]
  have w: "is_word 120" "word_opt (Some 120)"
    by (simp_all add: word_opt_def char_defs)
  from t have 1: "ear_rule (js ''B'' @ js ''ear'' @ js '': x'')
      = ear_rule (js ''B'') @ js ''Ear # '' @ ear_rule (dropWhile ear_sep (js '': x''))"
    by blast
  from t w have 2: "exec_at rx_reg_fix (Some 120) (js ''Reg:'') = None"
    by blast
  from t w have 3: "prefix (120 # js ''Reg'') (reg_rule (120 # js ''Reg'' @ js '': x''))"
    by blast
  from 1 have "ear_rule (js ''Bear: x'') = js ''BEar # x''"
    by (simp add: ear_sep_def ear_tail_def cls_ok_def char_defs ear_rule_def replace_all_def
          ear_from_Nil ear_from_miss)
  with 2 3 show ?thesis
    by simp
qed

section \<open>The segmenter\<close>

text \<open>
  C8, as the claim states it, at the empty text and at a text that holds the segmenter's
  own marker: the empty text gives no block at all, because empty chunks are dropped, and
  the text \<^verbatim>\<open>a\<close>, newline, \<^verbatim>\<open>=== b\<close> gives two UNKNOWN blocks, because it is split at the
  marker. Neither text contains a role keyword.
\<close>

theorem segmentRabbits_unknown_counterexample:
  "\<not> test rx_keyword [] \<and> segmentRabbits [] = []
   \<and> \<not> test rx_keyword (js ''a\<newline>=== b'')
   \<and> segmentRabbits (js ''a\<newline>=== b'')
     = [\<lparr>role = js ''UNKNOWN'', block = js ''a''\<rparr>, \<lparr>role = js ''UNKNOWN'', block = js ''b''\<rparr>]"
  by code_simp

text \<open>
  C8, amended. For every text in which the keyword pattern of the segmenter finds nothing
  (no whole word Name, Sire or Dam, in any letter case) and which does not contain the
  marker text, a newline followed by \<^verbatim>\<open>===\<close>: a blank text gives no block, and any other
  text gives exactly one block, with role UNKNOWN, whose content is the trimmed text.
\<close>

theorem segmentRabbits_without_keywords:
  assumes "\<not> test rx_keyword s" and "\<not> sublist (js ''\<newline>==='') s"
  shows "segmentRabbits s =
           (if trim s = [] then [] else [\<lparr>role = js ''UNKNOWN'', block = trim s\<rparr>])"
proof -
  from assms(1) have nk: "search rx_keyword None s = None"
    by (cases "search rx_keyword None s") (simp_all add: test_def)
  then have marked: "replace_all rx_keyword [T ''\<newline>=== '', G 1, T '' ===\<newline>''] s = s"
    by (simp add: replace_all_def replace_none)
  have "map trim (split_rx rx_marker s) = [trim s]"
  proof (cases "s = []")
    case True
    then show ?thesis by (simp add: split_rx_def exec_marker trim_def)
  next
    case False
    then show ?thesis
      using split_marker_none [OF assms(2), of None "[]"] by (simp add: split_rx_def)
  qed
  then show ?thesis
    using tag_chunk_unknown [OF nk] by (simp add: segmentRabbits_def marked del: One_nat_def)
qed

theorem segmentRabbits_without_keywords_witness:
  "segmentRabbits (js '' Holland Lop, 4 lb 2 oz '')
   = [\<lparr>role = js ''UNKNOWN'', block = js ''Holland Lop, 4 lb 2 oz''\<rparr>]"
proof -
  have 1: "\<not> test rx_keyword (js '' Holland Lop, 4 lb 2 oz '')"
    by code_simp
  have 2: "\<not> sublist (js ''\<newline>==='') (js '' Holland Lop, 4 lb 2 oz '')"
    by code_simp
  have 3: "trim (js '' Holland Lop, 4 lb 2 oz '') = js ''Holland Lop, 4 lb 2 oz''"
    by code_simp
  from segmentRabbits_without_keywords [OF 1 2] 3 show ?thesis
    by simp
qed

text \<open>
  C7, as the claim states it, at two texts in which the keyword pattern finds exactly the
  words Name, Sire and Dam, in this order: a text with a heading before Name gives a fourth
  block, with role UNKNOWN, and so does a text that holds the marker of the segmenter.
\<close>

theorem segmentRabbits_three_roles_counterexample:
  "found_words (js ''Card 7 Name: Thumper Sire: Rex Dam: Daisy'')
     = [js ''NAME'', js ''SIRE'', js ''DAM'']
   \<and> map role (segmentRabbits (js ''Card 7 Name: Thumper Sire: Rex Dam: Daisy''))
     = [js ''NAME'', js ''SIRE'', js ''DAM'', js ''UNKNOWN'']
   \<and> found_words (js ''Name: Thumper\<newline>=== 7 Sire: Rex Dam: Daisy'')
     = [js ''NAME'', js ''SIRE'', js ''DAM'']
   \<and> map role (segmentRabbits (js ''Name: Thumper\<newline>=== 7 Sire: Rex Dam: Daisy''))
     = [js ''NAME'', js ''SIRE'', js ''DAM'', js ''UNKNOWN'']"
  by code_simp

text \<open>
  C7, amended. For every text in which the keyword pattern of the segmenter finds exactly
  three words, Name, Sire and Dam in any letter case and in this order, with nothing but
  white space before the first of them, which does not contain the marker text, a newline
  followed by \<^verbatim>\<open>===\<close>, and in which no keyword match is directly followed by \<^verbatim>\<open>===\<close>: the
  segmenter gives exactly three blocks, with the roles NAME, SIRE, DAM in this order (NAME
  is the tag of the code for the subject), and the content of each block is the trimmed text
  between its keyword match and the next one.
\<close>

theorem segmentRabbits_three_roles:
  assumes "found_words s = [js ''NAME'', js ''SIRE'', js ''DAM'']"
    and "list_all is_space (text_before rx_keyword None s)"
    and "\<not> sublist (js ''\<newline>==='') s"
    and "list_all (\<lambda>(g, u). \<not> prefix (js ''==='') u) (occurrences rx_keyword None s)"
  shows "map role (segmentRabbits s) = [js ''NAME'', js ''SIRE'', js ''DAM'']
         \<and> segmentRabbits s
           = map (\<lambda>(g, u). \<lparr>role = toUpperCase g, block = trim u\<rparr>) (occurrences rx_keyword None s)"
proof -
  let ?tb = "text_before rx_keyword None s"
  let ?occ = "occurrences rx_keyword None s"
  let ?marked = "replace_all rx_keyword marker_of s"
  let ?out = "map (\<lambda>(g, u). \<lparr>role = toUpperCase g, block = trim u\<rparr>) ?occ"
  have sp: "split_from rx_marker None ?marked [] =
              ?tb # map (\<lambda>(g, u). g @ js '' ===\<newline>'' @ u) ?occ"
    using split_marked [OF assms(3,4), of None "[]"] by (simp add: replace_all_def)
  from assms(1) have occ: "?occ \<noteq> []"
    by (auto simp add: found_words_def)
  have "?marked \<noteq> []"
  proof
    assume "?marked = []"
    with sp occ show False
      by (simp add: split_from.simps)
  qed
  then have "split_rx rx_marker ?marked = ?tb # map (\<lambda>(g, u). g @ js '' ===\<newline>'' @ u) ?occ"
    using sp by (simp add: split_rx_def)
  then have chunks: "filter (\<lambda>x. x \<noteq> []) (map trim (split_rx rx_marker ?marked))
      = filter (\<lambda>x. x \<noteq> []) (map trim (map (\<lambda>(g, u). g @ js '' ===\<newline>'' @ u) ?occ))"
    using trim_blank [OF assms(2)] by simp
  have tagged: "map tag_chunk (filter (\<lambda>x. x \<noteq> []) (map trim (split_rx rx_marker ?marked))) = ?out"
    unfolding chunks by (rule sects_of_chunks) (rule occurrences_shape)
  have "map role ?out = found_words s"
    by (simp add: found_words_def case_prod_beta comp_def)
  with assms(1) have roles: "map role ?out = [js ''NAME'', js ''SIRE'', js ''DAM'']"
    by simp
  have "segmentRabbits s = ?out"
    using sort_three [OF roles] tagged by (simp add: segmentRabbits_def del: One_nat_def)
  with roles show ?thesis
    by simp
qed

theorem segmentRabbits_three_roles_witness:
  "segmentRabbits (js ''  Name: Thumper=T\<newline>Sire: Big Chief\<newline>Dam: Daisy'')
   = [\<lparr>role = js ''NAME'', block = js ''Thumper=T''\<rparr>,
      \<lparr>role = js ''SIRE'', block = js ''Big Chief''\<rparr>,
      \<lparr>role = js ''DAM'', block = js ''Daisy''\<rparr>]"
proof -
  let ?s = "js ''  Name: Thumper=T\<newline>Sire: Big Chief\<newline>Dam: Daisy''"
  have 1: "found_words ?s = [js ''NAME'', js ''SIRE'', js ''DAM'']"
    by code_simp
  have 2: "list_all is_space (text_before rx_keyword None ?s)"
    by code_simp
  have 3: "\<not> sublist (js ''\<newline>==='') ?s"
    by code_simp
  have 4: "list_all (\<lambda>(g, u). \<not> prefix (js ''==='') u) (occurrences rx_keyword None ?s)"
    by code_simp
  have 5: "map (\<lambda>(g, u). \<lparr>role = toUpperCase g, block = trim u\<rparr>) (occurrences rx_keyword None ?s)
     = [\<lparr>role = js ''NAME'', block = js ''Thumper=T''\<rparr>,
        \<lparr>role = js ''SIRE'', block = js ''Big Chief''\<rparr>,
        \<lparr>role = js ''DAM'', block = js ''Daisy''\<rparr>]"
    by code_simp
  from segmentRabbits_three_roles [OF 1 2 3 4] 5 show ?thesis
    by simp
qed

end
